theory Spec2Isabelle
  imports Main "HOL-Library.Word" "HOL-Library.Multiset"
begin

section \<open>Bytes, buffers and hexadecimal text\<close>

text \<open>
  A \<^verbatim>\<open>Buffer\<close> / \<^verbatim>\<open>Uint8Array\<close> is read through its contents, a list of bytes.
  \<^verbatim>\<open>subarray(a, b)\<close> clamps both indices to the length and is empty when \<open>b \<le> a\<close>;
  \<^verbatim>\<open>subarray(a)\<close> and \<^verbatim>\<open>slice(a)\<close> run to the end.
\<close>

type_synonym byte = "8 word"

definition subarray :: "'a list \<Rightarrow> nat \<Rightarrow> nat \<Rightarrow> 'a list" where
  "subarray xs a b = take (b - a) (drop a xs)"

definition subarray_from :: "'a list \<Rightarrow> nat \<Rightarrow> 'a list" where
  "subarray_from xs a = drop a xs"

text \<open>\<^verbatim>\<open>Buffer.from(u).toString("hex")\<close>: two lowercase digits for each byte.\<close>

definition hexdigit :: "nat \<Rightarrow> char" where
  "hexdigit n = ''0123456789abcdef'' ! n"

definition hex2 :: "byte \<Rightarrow> string" where
  "hex2 b = [hexdigit (unat b div 16), hexdigit (unat b mod 16)]"

definition toHex :: "byte list \<Rightarrow> string" where
  "toHex u = concat (map hex2 u)"

text \<open>\<^verbatim>\<open>const hex = (u) => "0x" + Buffer.from(u).toString("hex")\<close>\<close>

definition hex :: "byte list \<Rightarrow> string" where
  "hex u = ''0x'' @ toHex u"

text \<open>\<^verbatim>\<open>const bytes32ToEvm = (b32) => "0x" + Buffer.from(b32.slice(12)).toString("hex")\<close>\<close>

definition bytes32ToEvm :: "byte list \<Rightarrow> string" where
  "bytes32ToEvm b32 = ''0x'' @ toHex (subarray_from b32 12)"

section \<open>The peer field extractor\<close>

subsection \<open>Single best candidate: \<^verbatim>\<open>extractPeerBytes32\<close> (index.ts)\<close>

text \<open>
  \<^verbatim>\<open>for (let off = 0; off + 32 <= data.length; off++) {
    const s = data.subarray(off, off + 32);
    const headZeros = s.subarray(0, 12).every((b) => b === 0);
    const tailAllZero = s.subarray(12).every((b) => b === 0);
    if (headZeros && !tailAllZero) return new Uint8Array(s);
  }
  return null;\<close>
\<close>

function extractPeerBytes32_loop :: "byte list \<Rightarrow> nat \<Rightarrow> byte list option" where
  "extractPeerBytes32_loop d i =
     (if i + 32 \<le> length d then
        (let s = subarray d i (i + 32);
             headZeros = list_all (\<lambda>b. b = 0) (subarray s 0 12);
             tailAllZero = list_all (\<lambda>b. b = 0) (subarray_from s 12)
         in if headZeros \<and> \<not> tailAllZero then Some s
            else extractPeerBytes32_loop d (i + 1))
      else None)"
  by pat_completeness auto
termination
  by (relation "measure (\<lambda>(d, i). length d - i)") auto

definition extractPeerBytes32 :: "byte list \<Rightarrow> byte list option" where
  "extractPeerBytes32 d = extractPeerBytes32_loop d 0"

subsection \<open>Full enumeration: \<^verbatim>\<open>extractAllEvmPeers\<close> (scan script)\<close>

text \<open>
  \<^verbatim>\<open>function looksLikeBytes32EvmAddress(slice32) {
    if (slice32.length !== 32) return false;
    for (let i = 0; i < 12; i++) if (slice32[i] !== 0) return false;
    let allZero = true;
    for (let i = 12; i < 32; i++) if (slice32[i] !== 0) { allZero = false; break; }
    return !allZero;
  }\<close>
  The two index loops are recursions on the index; every index read is below the
  length 32 established by the first test.
\<close>

function head_loop :: "byte list \<Rightarrow> nat \<Rightarrow> bool" where
  "head_loop slice32 i =
     (if i < 12 then (if slice32 ! i \<noteq> 0 then False else head_loop slice32 (i + 1))
      else True)"
  by pat_completeness auto
termination
  by (relation "measure (\<lambda>(slice32, i). 12 - i)") auto

function tail_loop :: "byte list \<Rightarrow> nat \<Rightarrow> bool" where
  "tail_loop slice32 i =
     (if i < 32 then (if slice32 ! i \<noteq> 0 then False else tail_loop slice32 (i + 1))
      else True)"
  by pat_completeness auto
termination
  by (relation "measure (\<lambda>(slice32, i). 32 - i)") auto

definition looksLikeBytes32EvmAddress :: "byte list \<Rightarrow> bool" where
  "looksLikeBytes32EvmAddress slice32 =
     (if length slice32 \<noteq> 32 then False
      else if \<not> head_loop slice32 0 then False
      else (let allZero = tail_loop slice32 12 in \<not> allZero))"

record peer =
  off :: nat
  b32 :: string
  evm :: string

text \<open>
  \<^verbatim>\<open>const out = [];
  for (let off = 0; off + 32 <= data.length; off++) {
    const s = data.subarray(off, off + 32);
    if (looksLikeBytes32EvmAddress(s)) {
      const b32 = hex(s);
      const evm = bytes32ToEvm(s);
      if (!out.find((x) => x.evm === evm)) out.push({ off, b32, evm });
    }
  }
  return out;\<close>
\<close>

function extractAllEvmPeers_loop :: "byte list \<Rightarrow> nat \<Rightarrow> peer list \<Rightarrow> peer list" where
  "extractAllEvmPeers_loop d i out =
     (if i + 32 \<le> length d then
        (let s = subarray d i (i + 32) in
         if looksLikeBytes32EvmAddress s then
           (let b = hex s; e = bytes32ToEvm s in
            if find (\<lambda>x. evm x = e) out = None
            then extractAllEvmPeers_loop d (i + 1) (out @ [\<lparr>off = i, b32 = b, evm = e\<rparr>])
            else extractAllEvmPeers_loop d (i + 1) out)
         else extractAllEvmPeers_loop d (i + 1) out)
      else out)"
  by pat_completeness auto
termination
  by (relation "measure (\<lambda>(d, i, out). length d - i)") auto

definition extractAllEvmPeers :: "byte list \<Rightarrow> peer list" where
  "extractAllEvmPeers d = extractAllEvmPeers_loop d 0 []"

subsection \<open>The window predicate in the words of the specification\<close>

text \<open>
  \<open>window d p\<close> is the 32-byte window of the buffer at offset \<open>p\<close>. \<open>matchesAt d p\<close>
  says that this window lies inside the buffer, that its first 12 bytes are all zero and
  that its last 20 bytes are not all zero.
\<close>

definition window :: "byte list \<Rightarrow> nat \<Rightarrow> byte list" where
  "window d p = subarray d p (p + 32)"

definition matchesAt :: "byte list \<Rightarrow> nat \<Rightarrow> bool" where
  "matchesAt d p \<longleftrightarrow>
     p + 32 \<le> length d \<and> list_all (\<lambda>b. b = 0) (take 12 (window d p)) \<and>
     \<not> list_all (\<lambda>b. b = 0) (drop 12 (window d p))"

text \<open>
  Auxiliary functions of the proofs: one step of the enumeration loop, the entry it
  pushes, and the first occurrences of a key in a list.
\<close>

definition addPeer :: "byte list \<Rightarrow> nat \<Rightarrow> peer list \<Rightarrow> peer list" where
  "addPeer d p out =
     (if find (\<lambda>x. evm x = bytes32ToEvm (window d p)) out = None
      then out @ [\<lparr>off = p, b32 = hex (window d p), evm = bytes32ToEvm (window d p)\<rparr>]
      else out)"

definition mkPeer :: "byte list \<Rightarrow> nat \<Rightarrow> peer" where
  "mkPeer d p = \<lparr>off = p, b32 = hex (window d p), evm = bytes32ToEvm (window d p)\<rparr>"

fun firstOcc :: "('a \<Rightarrow> 'k) \<Rightarrow> 'k set \<Rightarrow> 'a list \<Rightarrow> 'a list" where
  "firstOcc k seen [] = []"
| "firstOcc k seen (x # xs) =
     (if k x \<in> seen then firstOcc k seen xs else x # firstOcc k (insert (k x) seen) xs)"

section \<open>Ledger collaborators and address derivation\<close>

text \<open>
  A \<^verbatim>\<open>PublicKey\<close> is its 32 bytes (\<^verbatim>\<open>toBuffer()\<close>); \<^verbatim>\<open>equals\<close> is equality of
  these. Three library calls are taken as parameters of the model:
  \<^item> \<open>fpa\<close>, the address returned by \<^verbatim>\<open>PublicKey.findProgramAddressSync(seeds, programId)\<close>,
    which throws when no bump seed gives an address off the curve;
  \<^item> \<open>conn\<close>, \<^verbatim>\<open>conn.getAccountInfo(address)\<close>, which throws on a transport error and
    returns \<^verbatim>\<open>null\<close> when the address holds no account;
  \<^item> \<open>toBase58\<close>, the base-58 text of a key.
\<close>

type_synonym pubkey = "byte list"

datatype error = ERR_OUT_OF_RANGE | DerivationError | RpcError | UsageExit

record AccountInfo =
  data :: "byte list"
  owner :: pubkey

type_synonym derivation = "byte list list \<Rightarrow> pubkey \<Rightarrow> error + pubkey"

type_synonym connection = "pubkey \<Rightarrow> error + AccountInfo option"

text \<open>\<^verbatim>\<open>Buffer.from("Peer")\<close>: the bytes of an ASCII label.\<close>

definition bytesOf :: "string \<Rightarrow> byte list" where
  "bytesOf s = map (\<lambda>c. of_nat (of_char c)) s"

text \<open>
  \<^verbatim>\<open>const u32LE = (n) => { const b = Buffer.alloc(4); b.writeUInt32LE(n); return b; }\<close>
  \<^verbatim>\<open>writeUInt32LE\<close> and \<^verbatim>\<open>writeUInt32BE\<close> throw \<^verbatim>\<open>ERR_OUT_OF_RANGE\<close> outside
  \<open>0 .. 2\<^sup>3\<^sup>2 - 1\<close>. The identifiers reaching them come from \<^verbatim>\<open>parseInt\<close> and
  \<^verbatim>\<open>Number.isFinite\<close>, or from literals: they are integers.
\<close>

definition u32LE :: "int \<Rightarrow> error + byte list" where
  "u32LE n =
     (if n < 0 \<or> 4294967295 < n then Inl ERR_OUT_OF_RANGE
      else Inr [word_of_int n, word_of_int (n div 256), word_of_int (n div 65536),
                word_of_int (n div 16777216)])"

definition u32BE :: "int \<Rightarrow> error + byte list" where
  "u32BE n =
     (if n < 0 \<or> 4294967295 < n then Inl ERR_OUT_OF_RANGE
      else Inr [word_of_int (n div 16777216), word_of_int (n div 65536), word_of_int (n div 256),
                word_of_int n])"

text \<open>\<^verbatim>\<open>const toB58 = (k) => (k ? k.toBase58() : null)\<close>\<close>

definition toB58 :: "(pubkey \<Rightarrow> string) \<Rightarrow> pubkey option \<Rightarrow> string option" where
  "toB58 toBase58 k = (case k of Some p \<Rightarrow> Some (toBase58 p) | None \<Rightarrow> None)"

text \<open>
  \<^verbatim>\<open>const [pda] = PublicKey.findProgramAddressSync([Buffer.from("Store")], programId);\<close>
\<close>

definition deriveStorePda :: "derivation \<Rightarrow> pubkey \<Rightarrow> error + pubkey" where
  "deriveStorePda fpa programId = fpa [bytesOf ''Store''] programId"

datatype Endian = LE | BE

record PeerPda =
  pda :: "pubkey option"
  ai :: "AccountInfo option"
  endian :: "Endian option"

text \<open>
  \<^verbatim>\<open>const [pLE] = PublicKey.findProgramAddressSync(
    [Buffer.from("Peer"), store.toBuffer(), u32LE(eid)], programId);
  const [pBE] = PublicKey.findProgramAddressSync(
    [Buffer.from("Peer"), store.toBuffer(), u32BE(eid)], programId);
  const aiLE = await conn.getAccountInfo(pLE);
  if (aiLE) return { pda: pLE, ai: aiLE, endian: "LE" };
  const aiBE = await conn.getAccountInfo(pBE);
  if (aiBE) return { pda: pBE, ai: aiBE, endian: "BE" };
  return { pda: null, ai: null, endian: null };\<close>
  Every throw is a branch of the model, in the order of evaluation.
\<close>

definition derivePeerPda ::
  "derivation \<Rightarrow> connection \<Rightarrow> pubkey \<Rightarrow> pubkey \<Rightarrow> int \<Rightarrow> error + PeerPda" where
  "derivePeerPda fpa conn programId store n =
     (case u32LE n of Inl e \<Rightarrow> Inl e | Inr sLE \<Rightarrow>
     (case fpa [bytesOf ''Peer'', store, sLE] programId of Inl e \<Rightarrow> Inl e | Inr pLE \<Rightarrow>
     (case u32BE n of Inl e \<Rightarrow> Inl e | Inr sBE \<Rightarrow>
     (case fpa [bytesOf ''Peer'', store, sBE] programId of Inl e \<Rightarrow> Inl e | Inr pBE \<Rightarrow>
     (case conn pLE of Inl e \<Rightarrow> Inl e
      | Inr aiLE \<Rightarrow>
        if aiLE \<noteq> None then Inr \<lparr>pda = Some pLE, ai = aiLE, endian = Some LE\<rparr>
        else
          (case conn pBE of Inl e \<Rightarrow> Inl e
           | Inr aiBE \<Rightarrow>
             if aiBE \<noteq> None then Inr \<lparr>pda = Some pBE, ai = aiBE, endian = Some BE\<rparr>
             else Inr \<lparr>pda = None, ai = None, endian = None\<rparr>))))))"

section \<open>The resolver of index.ts\<close>

record row =
  eid :: int
  peerPda :: "string option"
  exists :: bool
  endian :: "Endian option"
  bytes32 :: "string option"
  evm :: "string option"

text \<open>
  \<^verbatim>\<open>async function readOne(eid) {
    const peer = await derivePeerPda(programId, storePda, eid, conn);
    let peerB32 = null;
    let peerEvm = null;
    if (peer.ai?.data) {
      peerB32 = extractPeerBytes32(peer.ai.data);
      if (peerB32) peerEvm = bytes32ToEvm(peerB32);
    }
    return { eid, peerPda: toB58(peer.pda), exists: !!peer.ai, endian: peer.endian,
             bytes32: peerB32 ? hex(peerB32) : null, evm: peerEvm };
  }\<close>
\<close>

definition readOne ::
  "derivation \<Rightarrow> (pubkey \<Rightarrow> string) \<Rightarrow> connection \<Rightarrow> pubkey \<Rightarrow> pubkey \<Rightarrow> int \<Rightarrow> error + row" where
  "readOne fpa toBase58 conn programId store n =
     (case derivePeerPda fpa conn programId store n of Inl e \<Rightarrow> Inl e
      | Inr peer \<Rightarrow>
        (let peerB32 = (case ai peer of Some a \<Rightarrow> extractPeerBytes32 (data a) | None \<Rightarrow> None);
             peerEvm = (case peerB32 of Some b \<Rightarrow> Some (bytes32ToEvm b) | None \<Rightarrow> None)
         in Inr \<lparr>eid = n, peerPda = toB58 toBase58 (pda peer), exists = (ai peer \<noteq> None),
                 row.endian = PeerPda.endian peer,
                 bytes32 = (case peerB32 of Some b \<Rightarrow> Some (hex b) | None \<Rightarrow> None),
                 row.evm = peerEvm\<rparr>))"

text \<open>
  The batch loop of \<^verbatim>\<open>main\<close> (\<^verbatim>\<open>--list\<close>):
  \<^verbatim>\<open>const rows = [];
  for (const eid of eids) {
    try {
      const r = await readOne(eid);
      if (r.exists) rows.push(r);
    } catch {
    }
  }\<close>
  The \<^verbatim>\<open>catch\<close> block holds only a comment, which says that the failure of a single
  item is ignored and the loop goes on: it neither prints nor records anything.
\<close>

fun batch_loop ::
  "derivation \<Rightarrow> (pubkey \<Rightarrow> string) \<Rightarrow> connection \<Rightarrow> pubkey \<Rightarrow> pubkey \<Rightarrow> int list \<Rightarrow> row list \<Rightarrow> row list"
  where
  "batch_loop fpa toBase58 conn programId store [] rows = rows"
| "batch_loop fpa toBase58 conn programId store (n # ns) rows =
     (case readOne fpa toBase58 conn programId store n of
        Inl e \<Rightarrow> batch_loop fpa toBase58 conn programId store ns rows
      | Inr r \<Rightarrow>
          if exists r then batch_loop fpa toBase58 conn programId store ns (rows @ [r])
          else batch_loop fpa toBase58 conn programId store ns rows)"

record batch_report =
  rpc :: string
  programId :: string
  storePda :: "string option"
  storeExists :: bool
  storeOwner :: "string option"
  peersFound :: nat
  peers :: "row list"

text \<open>
  \<^verbatim>\<open>main\<close> in batch mode, from the program key built by \<^verbatim>\<open>new PublicKey(args.program)\<close>
  and the identifiers \<^verbatim>\<open>eids\<close> parsed from \<^verbatim>\<open>--eidlist\<close> (or the built-in list):
  \<^verbatim>\<open>const storePda = await deriveStorePda(programId);
  const storeAi = await conn.getAccountInfo(storePda);
  ... the loop above ...
  const out = { rpc: args.rpc, programId: programId.toBase58(), storePda: toB58(storePda),
    storeExists: !!storeAi, storeOwner: storeAi ? storeAi.owner.toBase58() : null,
    peersFound: rows.length, peers: rows.sort((a, b) => a.eid - b.eid) };\<close>
  Everything printed afterwards, as JSON or as lines, is read from \<^verbatim>\<open>out\<close>.
  \<^verbatim>\<open>Array.prototype.sort\<close> is stable; so is insertion by key.
\<close>

definition main_list ::
  "derivation \<Rightarrow> (pubkey \<Rightarrow> string) \<Rightarrow> connection \<Rightarrow> string \<Rightarrow> pubkey \<Rightarrow> int list
     \<Rightarrow> error + batch_report" where
  "main_list fpa toBase58 conn url pid eids =
     (case deriveStorePda fpa pid of Inl e \<Rightarrow> Inl e | Inr store \<Rightarrow>
     (case conn store of Inl e \<Rightarrow> Inl e | Inr storeAi \<Rightarrow>
        (let rows = batch_loop fpa toBase58 conn pid store eids [] in
         Inr \<lparr>rpc = url, programId = toBase58 pid, storePda = toB58 toBase58 (Some store),
              storeExists = (storeAi \<noteq> None),
              storeOwner = (case storeAi of Some a \<Rightarrow> Some (toBase58 (owner a)) | None \<Rightarrow> None),
              peersFound = length rows, peers = sort_key eid rows\<rparr>)))"

section \<open>The command line of index.ts\<close>

text \<open>
  \<^verbatim>\<open>const a = process.argv.slice(2);
  const m = new Map();
  for (let i = 0; i < a.length; i++) {
    const arg = a[i];
    if (!arg.startsWith("--")) continue;
    const key = arg.slice(2);
    const hasNext = i + 1 < a.length;
    const next = hasNext ? a[i + 1] : undefined;
    if (next && !next.startsWith("--")) { m.set(key, next); i++; }
    else { m.set(key, "true"); }
  }\<close>
  The argument vector \<open>a\<close> is the list after \<^verbatim>\<open>slice(2)\<close>. The test \<^verbatim>\<open>next && ...\<close> is
  false for \<^verbatim>\<open>undefined\<close> and for the empty string.
\<close>

definition startsWith :: "string \<Rightarrow> string \<Rightarrow> bool" where
  "startsWith s p = (take (length p) s = p)"

function parseArgs_loop :: "string list \<Rightarrow> nat \<Rightarrow> (string \<rightharpoonup> string) \<Rightarrow> (string \<rightharpoonup> string)" where
  "parseArgs_loop a i m =
     (if i < length a then
        (let arg = a ! i in
         if \<not> startsWith arg ''--'' then parseArgs_loop a (i + 1) m
         else
           (let key = drop 2 arg;
                hasNext = (i + 1 < length a);
                next = (if hasNext then Some (a ! (i + 1)) else None)
            in if next \<noteq> None \<and> the next \<noteq> [] \<and> \<not> startsWith (the next) ''--''
               then parseArgs_loop a (i + 1 + 1) (m(key \<mapsto> the next))
               else parseArgs_loop a (i + 1) (m(key \<mapsto> ''true''))))
      else m)"
  by pat_completeness auto
termination
  by (relation "measure (\<lambda>(a, i, m). length a - i)") auto

record Args =
  rpc :: string
  program :: string
  eid :: "int option"
  list :: bool
  eidlist :: "string option"
  json :: bool

text \<open>
  \<^verbatim>\<open>const program = m.get("program") ?? "";
  if (!program) { console.error('Usage: ...'); process.exit(1); }
  const eidStr = m.get("eid");
  const eid = eidStr != null ? parseInt(eidStr, 10) : undefined;
  return {
    rpc: m.get("rpc") ?? "https://api.mainnet-beta.solana.com",
    program,
    eid: Number.isFinite(eid) ? eid : undefined,
    list: (m.get("list") ?? "false") === "true",
    eidlist: m.get("eidlist") ?? undefined,
    json: (m.get("json") ?? "false") === "true",
  };\<close>
  \<open>parseInt10 s\<close> stands for \<^verbatim>\<open>parseInt(s, 10)\<close> followed by \<^verbatim>\<open>Number.isFinite\<close>:
  \<open>None\<close> when the result is \<^verbatim>\<open>NaN\<close> or infinite.
\<close>

definition getOr :: "(string \<rightharpoonup> string) \<Rightarrow> string \<Rightarrow> string \<Rightarrow> string" where
  "getOr m k dflt = (case m k of Some v \<Rightarrow> v | None \<Rightarrow> dflt)"

definition parseArgs :: "(string \<Rightarrow> int option) \<Rightarrow> string list \<Rightarrow> error + Args" where
  "parseArgs parseInt10 a =
     (let m = parseArgs_loop a 0 Map.empty;
          prog = getOr m ''program'' []
      in if prog = [] then Inl UsageExit
         else
           (let eidStr = m ''eid'';
                eidNum = (case eidStr of Some s \<Rightarrow> parseInt10 s | None \<Rightarrow> None)
            in Inr \<lparr>Args.rpc = getOr m ''rpc'' ''https://api.mainnet-beta.solana.com'',
                    program = prog,
                    Args.eid = eidNum,
                    list = (getOr m ''list'' ''false'' = ''true''),
                    eidlist = m ''eidlist'',
                    json = (getOr m ''json'' ''false'' = ''true'')\<rparr>))"

section \<open>The enumerate script\<close>


text \<open>
  \<^verbatim>\<open>function peerPdaFor(programId, store, eid, endian) {
    const seedEid = endian === "LE" ? u32LE(eid) : u32BE(eid);
    const [pda] = PublicKey.findProgramAddressSync(
      [Buffer.from("Peer"), store.toBuffer(), seedEid], programId);
    return pda;
  }\<close>
\<close>

definition peerPdaFor :: "derivation \<Rightarrow> pubkey \<Rightarrow> pubkey \<Rightarrow> int \<Rightarrow> Endian \<Rightarrow> error + pubkey" where
  "peerPdaFor fpa pid store n en =
     (case (if en = LE then u32LE n else u32BE n) of Inl e \<Rightarrow> Inl e
      | Inr seedEid \<Rightarrow> fpa [bytesOf ''Peer'', store, seedEid] pid)"

record ProgramAccount =
  pubkey :: pubkey
  account :: AccountInfo

record scan_row =
  acc :: pubkey
  dataLen :: nat
  peerBytes32 :: string
  peerEvm :: string


record resolved =
  eid :: int
  endian :: Endian
  acc :: string
  peerEvm :: string
  peerBytes32 :: string





section \<open>The extractors over a store of array buffers\<close>

text \<open>
  In the source a \<^verbatim>\<open>Buffer\<close> or \<^verbatim>\<open>Uint8Array\<close> is a view (backing array buffer, byte
  offset, length) of memory that other views may share: \<^verbatim>\<open>subarray\<close> and \<^verbatim>\<open>Buffer\<close>'s
  \<^verbatim>\<open>slice\<close> make a view of the same memory, while \<^verbatim>\<open>new Uint8Array(s)\<close> and
  \<^verbatim>\<open>Buffer.from(u)\<close> allocate a fresh array buffer and copy. To state that the extractors
  leave their input alone, the same two functions are modelled once more over an explicit
  store: \<open>cells\<close> maps the address of an array buffer to its bytes, and addresses from
  \<open>fresh\<close> on are unused.
\<close>

record store =
  cells :: "nat \<Rightarrow> byte list"
  fresh :: nat

record view =
  buffer :: nat
  byteOffset :: nat
  byteLength :: nat

text \<open>The bytes seen through a view; every read of the extractors goes through it.\<close>

definition bytes :: "store \<Rightarrow> view \<Rightarrow> byte list" where
  "bytes st v = take (byteLength v) (drop (byteOffset v) (cells st (buffer v)))"

definition valid :: "store \<Rightarrow> view \<Rightarrow> bool" where
  "valid st v \<longleftrightarrow>
     buffer v < fresh st \<and> byteOffset v + byteLength v \<le> length (cells st (buffer v))"

definition view_subarray :: "view \<Rightarrow> nat \<Rightarrow> nat \<Rightarrow> view" where
  "view_subarray v a b =
     \<lparr>buffer = buffer v, byteOffset = byteOffset v + min a (byteLength v),
      byteLength = min b (byteLength v) - min a (byteLength v)\<rparr>"

definition view_subarray_from :: "view \<Rightarrow> nat \<Rightarrow> view" where
  "view_subarray_from v a = view_subarray v a (byteLength v)"

text \<open>Allocation of a copy: the only way the extractors change the store.\<close>

definition copy_of :: "store \<Rightarrow> view \<Rightarrow> store \<times> view" where
  "copy_of st v =
     (st\<lparr>cells := (cells st)(fresh st := bytes st v), fresh := fresh st + 1\<rparr>,
      \<lparr>buffer = fresh st, byteOffset = 0, byteLength = byteLength v\<rparr>)"

function extractPeerBytes32_st_loop :: "store \<Rightarrow> view \<Rightarrow> nat \<Rightarrow> store \<times> view option" where
  "extractPeerBytes32_st_loop st d i =
     (if i + 32 \<le> byteLength d then
        (let s = view_subarray d i (i + 32);
             headZeros = list_all (\<lambda>b. b = 0) (bytes st (view_subarray s 0 12));
             tailAllZero = list_all (\<lambda>b. b = 0) (bytes st (view_subarray_from s 12))
         in if headZeros \<and> \<not> tailAllZero
            then (case copy_of st s of (st', r) \<Rightarrow> (st', Some r))
            else extractPeerBytes32_st_loop st d (i + 1))
      else (st, None))"
  by pat_completeness auto
termination
  by (relation "measure (\<lambda>(st, d, i). byteLength d - i)") auto

definition extractPeerBytes32_st :: "store \<Rightarrow> view \<Rightarrow> store \<times> view option" where
  "extractPeerBytes32_st st d = extractPeerBytes32_st_loop st d 0"

text \<open>
  \<^verbatim>\<open>hex(s)\<close> copies \<^verbatim>\<open>s\<close> with \<^verbatim>\<open>Buffer.from\<close> and prints the copy;
  \<^verbatim>\<open>bytes32ToEvm(s)\<close> takes the view \<^verbatim>\<open>s.slice(12)\<close> of a \<^verbatim>\<open>Buffer\<close>, copies it and
  prints the copy.
\<close>

definition hex_st :: "store \<Rightarrow> view \<Rightarrow> store \<times> string" where
  "hex_st st u = (case copy_of st u of (st', c) \<Rightarrow> (st', ''0x'' @ toHex (bytes st' c)))"

definition bytes32ToEvm_st :: "store \<Rightarrow> view \<Rightarrow> store \<times> string" where
  "bytes32ToEvm_st st slice32 =
     (case copy_of st (view_subarray_from slice32 12) of
        (st', c) \<Rightarrow> (st', ''0x'' @ toHex (bytes st' c)))"

function extractAllEvmPeers_st_loop ::
  "store \<Rightarrow> view \<Rightarrow> nat \<Rightarrow> peer list \<Rightarrow> store \<times> peer list" where
  "extractAllEvmPeers_st_loop st d i out =
     (if i + 32 \<le> byteLength d then
        (let s = view_subarray d i (i + 32) in
         if looksLikeBytes32EvmAddress (bytes st s) then
           (case hex_st st s of (st1, b) \<Rightarrow>
           (case bytes32ToEvm_st st1 s of (st2, e) \<Rightarrow>
              if find (\<lambda>x. peer.evm x = e) out = None
              then extractAllEvmPeers_st_loop st2 d (i + 1) (out @ [\<lparr>off = i, b32 = b, peer.evm = e\<rparr>])
              else extractAllEvmPeers_st_loop st2 d (i + 1) out))
         else extractAllEvmPeers_st_loop st d (i + 1) out)
      else (st, out))"
  by pat_completeness auto
termination
  by (relation "measure (\<lambda>(st, d, i, out). byteLength d - i)") auto

definition extractAllEvmPeers_st :: "store \<Rightarrow> view \<Rightarrow> store \<times> peer list" where
  "extractAllEvmPeers_st st d = extractAllEvmPeers_st_loop st d 0 []"

section \<open>Attribution in the words of the specification\<close>


section \<open>Rows of a batch in the words of the specification\<close>


section \<open>Options of the command line in the words of the specification\<close>

text \<open>
  \<open>isOption a k j\<close>: the token at index \<open>j\<close> is the option \<open>--k\<close>. \<open>lastOption a k\<close> is the
  index of its last occurrence. \<open>valueAt a i\<close> is the value stored for an option at index
  \<open>i\<close>: the next token when there is one, non-empty and not itself starting with \<open>--\<close>, and
  the text \<open>true\<close> otherwise. \<open>flagTrue a i\<close>: the option at index \<open>i\<close> is the last token, or
  is followed by a token starting with \<open>--\<close>, by the empty token or by the token \<open>true\<close>.
\<close>

definition valueAt :: "string list \<Rightarrow> nat \<Rightarrow> string" where
  "valueAt a i =
     (if i + 1 < length a \<and> a ! (i + 1) \<noteq> [] \<and> \<not> startsWith (a ! (i + 1)) ''--''
      then a ! (i + 1) else ''true'')"

definition isOption :: "string list \<Rightarrow> string \<Rightarrow> nat \<Rightarrow> bool" where
  "isOption a k j \<longleftrightarrow> a ! j = ''--'' @ k"

definition lastOption :: "string list \<Rightarrow> string \<Rightarrow> nat option" where
  "lastOption a k = find (isOption a k) (rev [0..<length a])"

definition flagTrue :: "string list \<Rightarrow> nat \<Rightarrow> bool" where
  "flagTrue a i \<longleftrightarrow>
     i + 1 = length a \<or> startsWith (a ! (i + 1)) ''--'' \<or> a ! (i + 1) = [] \<or>
     a ! (i + 1) = ''true''"

section \<open>Isolated windows in the words of the specification\<close>

text \<open>
  \<open>isolated_windows d ps\<close>: the offsets \<open>ps\<close> are those of valid windows of the buffer (each
  satisfies the predicate), in ascending order and at least 32 bytes apart from the end
  of one to the start of the next; no window of the buffer at any other offset satisfies
  the predicate, in particular none that overlaps the filler or straddles the boundary of
  a window; and the decoded 20-byte values of the windows are pairwise different.
\<close>

definition isolated_windows :: "byte list \<Rightarrow> nat list \<Rightarrow> bool" where
  "isolated_windows d ps \<longleftrightarrow>
     sorted_wrt (\<lambda>p q. p + 64 \<le> q) ps \<and>
     list_all (matchesAt d) ps \<and>
     list_all (\<lambda>q. matchesAt d q \<longrightarrow> q \<in> set ps) [0..<length d - 31] \<and>
     distinct (map (\<lambda>p. subarray_from (window d p) 12) ps)"

section \<open>Frame of the store in the words of the specification\<close>

text \<open>
  \<open>unchanged st st'\<close>: every array buffer allocated in \<open>st\<close> holds the same bytes in
  \<open>st'\<close>, and nothing allocated has been released.
\<close>

definition unchanged :: "store \<Rightarrow> store \<Rightarrow> bool" where
  "unchanged st st' \<longleftrightarrow> fresh st \<le> fresh st' \<and> (\<forall>a<fresh st. cells st' a = cells st a)"

section \<open>Concrete inputs\<close>

definition demo_dups :: "byte list" where
  "demo_dups = [0xFF] @ replicate 12 0 @ replicate 20 0xAB @ replicate 12 0 @ replicate 20 0xCD
      @ replicate 12 0 @ replicate 20 0xAB"

text \<open>
  Stand-ins for the library calls, used only to instantiate the theorems: a derivation
  that concatenates its seeds and the program key, and the hexadecimal text of a key in
  the place of its base-58 text.
\<close>

definition demo_fpa :: derivation where
  "demo_fpa seeds pid = Inr (concat seeds @ pid)"

definition demo_toBase58 :: "pubkey \<Rightarrow> string" where
  "demo_toBase58 k = toHex k"

definition demo_pid :: pubkey where
  "demo_pid = [1]"

definition demo_store :: pubkey where
  "demo_store = bytesOf ''Store'' @ demo_pid"

definition demo_pLE :: pubkey where
  "demo_pLE = bytesOf ''Peer'' @ demo_store @ [0x9D, 0x75, 0, 0] @ demo_pid"

definition demo_pBE :: pubkey where
  "demo_pBE = bytesOf ''Peer'' @ demo_store @ [0, 0, 0x75, 0x9D] @ demo_pid"

definition demo_pLE_30101 :: pubkey where
  "demo_pLE_30101 = bytesOf ''Peer'' @ demo_store @ [0x95, 0x75, 0, 0] @ demo_pid"

definition demo_peer_account :: AccountInfo where
  "demo_peer_account =
     \<lparr>data = replicate 8 0x11 @ replicate 12 0 @ replicate 20 0xAB @ replicate 8 0x11,
      owner = demo_pid\<rparr>"

definition demo_blank_account :: AccountInfo where
  "demo_blank_account = \<lparr>data = replicate 40 0x11, owner = demo_pid\<rparr>"

text \<open>A ledger holding the listed accounts, and one whose fetch of one address throws.\<close>

definition conn_of :: "(pubkey \<times> AccountInfo) list \<Rightarrow> connection" where
  "conn_of l p = Inr (map_of l p)"

definition conn_failing_at :: "pubkey \<Rightarrow> (pubkey \<times> AccountInfo) list \<Rightarrow> connection" where
  "conn_failing_at bad l p = (if p = bad then Inl RpcError else Inr (map_of l p))"







text \<open>An argument vector that repeats \<open>--list\<close>, and the arguments parsed from it.\<close>

definition demo_argv :: "string list" where
  "demo_argv = [''--list'', ''--program'', ''P'', ''--list'', ''no'', ''--json'']"

definition demo_args :: Args where
  "demo_args =
     \<lparr>Args.rpc = ''https://api.mainnet-beta.solana.com'', program = ''P'', Args.eid = None,
      list = False, eidlist = None, json = True\<rparr>"

text \<open>
  A store whose only array buffer holds the 48 bytes of the peer account, a view of all
  of it and a view of its last 8 bytes.
\<close>

definition demo_memory :: store where
  "demo_memory = \<lparr>cells = (\<lambda>a. if a = 0 then data demo_peer_account else []), fresh = 1\<rparr>"

definition demo_view :: view where
  "demo_view = \<lparr>buffer = 0, byteOffset = 0, byteLength = 48\<rparr>"

definition demo_short_view :: view where
  "demo_short_view = \<lparr>buffer = 0, byteOffset = 40, byteLength = 8\<rparr>"

text \<open>
  Buffers made of two valid windows separated by 32 bytes of filler: with filler \<open>0xFF\<close>
  and different values, one of them holding a zero byte; with filler \<open>0xFF\<close> and a first
  value that starts with a zero byte; with zero filler; and with filler \<open>0xFF\<close> and the
  same value twice.
\<close>

definition demo_two_windows :: "byte list" where
  "demo_two_windows =
     (replicate 12 0 @ [0xAB, 0] @ replicate 18 0xAB) @ replicate 32 0xFF @
     (replicate 12 0 @ replicate 20 0xCD)"

definition demo_leading_zero :: "byte list" where
  "demo_leading_zero =
     (replicate 12 0 @ [0] @ replicate 19 0xAB) @ replicate 32 0xFF @
     (replicate 12 0 @ replicate 20 0xCD)"

definition demo_zero_filler :: "byte list" where
  "demo_zero_filler =
     (replicate 12 0 @ replicate 20 0xAB) @ replicate 32 0 @ (replicate 12 0 @ replicate 20 0xCD)"

definition demo_same_value :: "byte list" where
  "demo_same_value =
     (replicate 12 0 @ replicate 20 0xAB) @ replicate 32 0xFF @ (replicate 12 0 @ replicate 20 0xAB)"

section \<open>Properties of the extractor\<close>

declare extractPeerBytes32_loop.simps [simp del]
declare extractAllEvmPeers_loop.simps [simp del]
declare head_loop.simps [simp del]
declare tail_loop.simps [simp del]
declare parseArgs_loop.simps [simp del]
declare extractPeerBytes32_st_loop.simps [simp del]
declare extractAllEvmPeers_st_loop.simps [simp del]

lemma head_loop_iff: "head_loop s i \<longleftrightarrow> (\<forall>j. i \<le> j \<and> j < 12 \<longrightarrow> s ! j = 0)"
proof (induction s i rule: head_loop.induct)
  case (1 s i)
  show ?case
  proof (cases "i < 12")
    case True
    show ?thesis
    proof (cases "s ! i = 0")
      case z: True
      have "(\<forall>j. i \<le> j \<and> j < 12 \<longrightarrow> s ! j = 0) \<longleftrightarrow> (\<forall>j. i + 1 \<le> j \<and> j < 12 \<longrightarrow> s ! j = 0)"
        using z by (metis Suc_eq_plus1 Suc_leI le_neq_implies_less le_add1 order_trans)
      with 1 True z show ?thesis by (subst head_loop.simps) simp
    next
      case False
      with True show ?thesis by (subst head_loop.simps) auto
    qed
  next
    case False
    then have "head_loop s i" by (subst head_loop.simps) simp
    with False show ?thesis by auto
  qed
qed

lemma tail_loop_iff: "tail_loop s i \<longleftrightarrow> (\<forall>j. i \<le> j \<and> j < 32 \<longrightarrow> s ! j = 0)"
proof (induction s i rule: tail_loop.induct)
  case (1 s i)
  show ?case
  proof (cases "i < 32")
    case True
    show ?thesis
    proof (cases "s ! i = 0")
      case z: True
      have "(\<forall>j. i \<le> j \<and> j < 32 \<longrightarrow> s ! j = 0) \<longleftrightarrow> (\<forall>j. i + 1 \<le> j \<and> j < 32 \<longrightarrow> s ! j = 0)"
        using z by (metis Suc_eq_plus1 Suc_leI le_neq_implies_less le_add1 order_trans)
      with 1 True z show ?thesis by (subst tail_loop.simps) simp
    next
      case False
      with True show ?thesis by (subst tail_loop.simps) auto
    qed
  next
    case False
    then have "tail_loop s i" by (subst tail_loop.simps) simp
    with False show ?thesis by auto
  qed
qed

lemma list_all_take_nth: "n \<le> length s \<Longrightarrow> list_all P (take n s) \<longleftrightarrow> (\<forall>j<n. P (s ! j))"
  by (simp add: list_all_length)

lemma list_all_drop_nth: "list_all P (drop n s) \<longleftrightarrow> (\<forall>j. n \<le> j \<and> j < length s \<longrightarrow> P (s ! j))"
proof
  assume a: "list_all P (drop n s)"
  show "\<forall>j. n \<le> j \<and> j < length s \<longrightarrow> P (s ! j)"
  proof (intro allI impI)
    fix j assume j: "n \<le> j \<and> j < length s"
    then have "j - n < length (drop n s)" by (simp only: length_drop) arith
    with a have "P (drop n s ! (j - n))" by (simp add: list_all_length)
    with j show "P (s ! j)" by simp
  qed
next
  assume "\<forall>j. n \<le> j \<and> j < length s \<longrightarrow> P (s ! j)"
  then show "list_all P (drop n s)" by (simp add: list_all_length)
qed

lemma looksLike_iff:
  "looksLikeBytes32EvmAddress s \<longleftrightarrow>
     length s = 32 \<and> list_all (\<lambda>b. b = 0) (take 12 s) \<and> \<not> list_all (\<lambda>b. b = 0) (drop 12 s)"
proof (cases "length s = 32")
  case True
  have h: "head_loop s 0 \<longleftrightarrow> list_all (\<lambda>b. b = 0) (take 12 s)"
    unfolding head_loop_iff using True by (subst list_all_take_nth) simp_all
  have t: "tail_loop s 12 \<longleftrightarrow> list_all (\<lambda>b. b = 0) (drop 12 s)"
    unfolding tail_loop_iff list_all_drop_nth using True by simp
  show ?thesis
    unfolding looksLikeBytes32EvmAddress_def Let_def h t using True by simp
next
  case False
  then show ?thesis unfolding looksLikeBytes32EvmAddress_def by simp
qed

lemma length_window: "p + 32 \<le> length d \<Longrightarrow> length (window d p) = 32"
  by (simp add: window_def subarray_def)

lemma looksLike_window:
  "p + 32 \<le> length d \<Longrightarrow> looksLikeBytes32EvmAddress (window d p) = matchesAt d p"
  by (simp add: looksLike_iff matchesAt_def length_window)

lemma upt_windows:
  "i + 32 \<le> length (d::byte list) \<Longrightarrow> [i..<length d - 31] = i # [i + 1..<length d - 31]"
  by (simp add: upt_conv_Cons)

lemma upt_windows_done:
  "\<not> i + 32 \<le> length (d::byte list) \<Longrightarrow> [i..<length d - 31] = []"
  by simp

lemma single_loop_find:
  "extractPeerBytes32_loop d i =
     map_option (window d) (find (matchesAt d) [i..<length d - 31])"
proof (induction d i rule: extractPeerBytes32_loop.induct)
  case (1 d i)
  show ?case
  proof (cases "i + 32 \<le> length d")
    case True
    note u = upt_windows [OF True]
    have m: "(list_all (\<lambda>b. b = 0) (subarray (subarray d i (i + 32)) 0 12) \<and>
        \<not> list_all (\<lambda>b. b = 0) (subarray_from (subarray d i (i + 32)) 12)) = matchesAt d i"
      using True by (simp add: matchesAt_def window_def subarray_def subarray_from_def)
    show ?thesis
    proof (cases "matchesAt d i")
      case t: True
      have "extractPeerBytes32_loop d i = Some (window d i)"
        by (subst extractPeerBytes32_loop.simps) (simp add: True m t window_def Let_def)
      then show ?thesis using t by (simp add: u)
    next
      case f: False
      have "extractPeerBytes32_loop d i = extractPeerBytes32_loop d (i + 1)"
        by (subst extractPeerBytes32_loop.simps) (simp add: True m f Let_def)
      also have "\<dots> = map_option (window d) (find (matchesAt d) [i + 1..<length d - 31])"
        using 1 [OF True refl refl refl] by (simp add: m f)
      finally show ?thesis using f by (simp add: u)
    qed
  next
    case False
    have "extractPeerBytes32_loop d i = None"
      using False by (subst extractPeerBytes32_loop.simps) simp
    then show ?thesis by (simp add: upt_windows_done [OF False])
  qed
qed

lemma all_loop_fold:
  "extractAllEvmPeers_loop d i out =
     fold (addPeer d) (filter (matchesAt d) [i..<length d - 31]) out"
proof (induction d i out rule: extractAllEvmPeers_loop.induct)
  case (1 d i out)
  let ?rest = "filter (matchesAt d) [i + 1..<length d - 31]"
  show ?case
  proof (cases "i + 32 \<le> length d")
    case True
    note u = upt_windows [OF True]
    have m: "looksLikeBytes32EvmAddress (subarray d i (i + 32)) = matchesAt d i"
      using looksLike_window [OF True] by (simp add: window_def)
    show ?thesis
    proof (cases "matchesAt d i")
      case f: False
      have "extractAllEvmPeers_loop d i out = extractAllEvmPeers_loop d (i + 1) out"
        by (subst extractAllEvmPeers_loop.simps) (simp add: True m f Let_def)
      also have "\<dots> = fold (addPeer d) ?rest out"
        using 1(3) [OF True refl] by (simp add: m f)
      finally show ?thesis using f by (simp add: u)
    next
      case t: True
      let ?e = "bytes32ToEvm (subarray d i (i + 32))"
      have fl: "filter (matchesAt d) [i..<length d - 31] = i # ?rest"
        using t by (simp add: u)
      show ?thesis
      proof (cases "find (\<lambda>x. peer.evm x = ?e) out = None")
        case n: True
        let ?out = "out @ [\<lparr>off = i, b32 = hex (subarray d i (i + 32)), peer.evm = ?e\<rparr>]"
        have a: "addPeer d i out = ?out"
          using n by (simp add: addPeer_def window_def)
        have "extractAllEvmPeers_loop d i out = extractAllEvmPeers_loop d (i + 1) ?out"
          by (subst extractAllEvmPeers_loop.simps) (simp add: True m t n Let_def)
        also have "\<dots> = fold (addPeer d) ?rest ?out"
          using 1(1) [OF True refl _ refl refl] by (simp add: m t n)
        finally show ?thesis by (simp only: fl fold_simps a)
      next
        case n: False
        have a: "addPeer d i out = out"
          using n by (simp add: addPeer_def window_def)
        have "extractAllEvmPeers_loop d i out = extractAllEvmPeers_loop d (i + 1) out"
          by (subst extractAllEvmPeers_loop.simps) (simp add: True m t n Let_def)
        also have "\<dots> = fold (addPeer d) ?rest out"
          using 1(2) [OF True refl _ refl refl] by (simp add: m t n)
        finally show ?thesis by (simp only: fl fold_simps a)
      qed
    qed
  next
    case False
    have "extractAllEvmPeers_loop d i out = out"
      using False by (subst extractAllEvmPeers_loop.simps) simp
    then show ?thesis by (simp add: upt_windows_done [OF False])
  qed
qed

lemma fold_addPeer:
  "fold (addPeer d) ps out =
     out @ map (mkPeer d) (firstOcc (\<lambda>p. bytes32ToEvm (window d p)) (set (map peer.evm out)) ps)"
proof (induction ps arbitrary: out)
  case Nil
  then show ?case by simp
next
  case (Cons p ps)
  show ?case
  proof (cases "bytes32ToEvm (window d p) \<in> set (map peer.evm out)")
    case True
    then have "find (\<lambda>x. peer.evm x = bytes32ToEvm (window d p)) out \<noteq> None"
      by (auto simp: find_None_iff)
    then have "addPeer d p out = out" by (simp add: addPeer_def)
    then show ?thesis using Cons [of out] True by simp
  next
    case False
    then have "find (\<lambda>x. peer.evm x = bytes32ToEvm (window d p)) out = None"
      by (force simp: find_None_iff)
    then have a: "addPeer d p out = out @ [mkPeer d p]" by (simp add: addPeer_def mkPeer_def)
    have s: "set (map peer.evm (out @ [mkPeer d p])) = insert (bytes32ToEvm (window d p)) (set (map peer.evm out))"
      by (simp add: mkPeer_def)
    show ?thesis using Cons [of "out @ [mkPeer d p]"] False
      by (simp only: fold_simps a s firstOcc.simps if_False list.map append_assoc append_Cons append_Nil)
  qed
qed

lemma extractAll_firstOcc:
  "extractAllEvmPeers d =
     map (mkPeer d) (firstOcc (\<lambda>p. bytes32ToEvm (window d p)) {}
       (filter (matchesAt d) [0..<length d - 31]))"
  by (simp add: extractAllEvmPeers_def all_loop_fold fold_addPeer)

lemma set_firstOcc_subset: "set (firstOcc k seen xs) \<subseteq> set xs"
  by (induction xs arbitrary: seen) auto

lemma keys_firstOcc: "k ` set (firstOcc k seen xs) = k ` set xs - seen"
  by (induction xs arbitrary: seen) auto

lemma distinct_keys_firstOcc: "distinct (map k (firstOcc k seen xs))"
proof (induction xs arbitrary: seen)
  case Nil
  then show ?case by simp
next
  case (Cons x xs)
  have "k x \<notin> k ` set (firstOcc k (insert (k x) seen) xs)"
    by (simp add: keys_firstOcc)
  with Cons show ?case by simp
qed

lemma sorted_firstOcc: "sorted_wrt (<) xs \<Longrightarrow> sorted_wrt (<) (firstOcc k seen xs)"
proof (induction xs arbitrary: seen)
  case Nil
  then show ?case by simp
next
  case (Cons x xs)
  then show ?case using set_firstOcc_subset [of k "insert (k x) seen" xs] by auto
qed

lemma mem_firstOcc:
  "sorted_wrt (<) (xs::nat list) \<Longrightarrow>
     x \<in> set (firstOcc k seen xs) \<longleftrightarrow>
       x \<in> set xs \<and> k x \<notin> seen \<and> (\<forall>y\<in>set xs. y < x \<longrightarrow> k y \<noteq> k x)"
proof (induction xs arbitrary: seen)
  case Nil
  then show ?case by simp
next
  case (Cons a xs)
  then have lt: "\<forall>y\<in>set xs. a < y" and s: "sorted_wrt (<) xs" by simp_all
  show ?case
  proof (cases "k a \<in> seen")
    case True
    then show ?thesis using Cons.IH [OF s, of seen] lt by auto
  next
    case False
    then show ?thesis using Cons.IH [OF s, of "insert (k a) seen"] lt by auto
  qed
qed

lemma firstOcc_id: "distinct (map k xs) \<Longrightarrow> k ` set xs \<inter> seen = {} \<Longrightarrow> firstOcc k seen xs = xs"
  by (induction xs arbitrary: seen) auto

lemma hexdigit_inj: "i < 16 \<Longrightarrow> j < 16 \<Longrightarrow> hexdigit i = hexdigit j \<Longrightarrow> i = j"
proof -
  assume a: "i < 16" "j < 16" "hexdigit i = hexdigit j"
  have d: "distinct ''0123456789abcdef''" by simp
  have l: "length ''0123456789abcdef'' = 16" by simp
  show "i = j" using a nth_eq_iff_index_eq [OF d, of i j] unfolding hexdigit_def l by simp
qed

lemma hex2_inj: "hex2 a = hex2 b \<Longrightarrow> a = b"
proof -
  assume h: "hex2 a = hex2 b"
  have "unat a div 16 < 16" "unat b div 16 < 16"
    using unsigned_less [of a, where 'a = nat] unsigned_less [of b, where 'a = nat] by simp_all
  moreover have "hexdigit (unat a div 16) = hexdigit (unat b div 16)"
    using h by (simp add: hex2_def)
  ultimately have d: "unat a div 16 = unat b div 16" by (rule hexdigit_inj)
  have "hexdigit (unat a mod 16) = hexdigit (unat b mod 16)"
    using h by (simp add: hex2_def)
  then have m: "unat a mod 16 = unat b mod 16" by (rule hexdigit_inj [rotated 2]) simp_all
  have "unat a = unat b" using d m by (metis div_mult_mod_eq)
  then show "a = b" by (rule word_unat_eq_iff [THEN iffD2])
qed

lemma toHex_inj: "toHex u = toHex v \<Longrightarrow> u = v"
proof (induction u arbitrary: v)
  case Nil
  then show ?case by (cases v) (simp_all add: toHex_def hex2_def)
next
  case (Cons a u)
  then obtain b v' where v: "v = b # v'" by (cases v) (auto simp: toHex_def hex2_def)
  from Cons.prems have "hex2 a = hex2 b \<and> toHex u = toHex v'"
    by (simp add: v toHex_def hex2_def)
  then show ?case using Cons.IH [of v'] hex2_inj v by blast
qed

lemma bytes32ToEvm_eq_iff:
  "bytes32ToEvm a = bytes32ToEvm b \<longleftrightarrow> subarray_from a 12 = subarray_from b 12"
  using toHex_inj by (auto simp: bytes32ToEvm_def)

lemma matched_offsets_set:
  "set (filter (matchesAt d) [0..<length d - 31]) = {p. matchesAt d p}"
  by (auto simp: matchesAt_def)

lemma matched_offsets_sorted:
  "sorted_wrt (<) (filter (matchesAt d) [0..<length d - 31])"
  by (rule sorted_wrt_filter) simp

lemma off_mkPeer: "off (mkPeer d p) = p"
  and evm_mkPeer: "peer.evm (mkPeer d p) = bytes32ToEvm (window d p)"
  and b32_mkPeer: "b32 (mkPeer d p) = hex (window d p)"
  by (simp_all add: mkPeer_def)

lemma map_off_extractAll:
  "map off (extractAllEvmPeers d) =
     firstOcc (\<lambda>p. bytes32ToEvm (window d p)) {} (filter (matchesAt d) [0..<length d - 31])"
  by (simp add: extractAll_firstOcc o_def off_mkPeer)

lemma extractAll_eq_mkPeer:
  "extractAllEvmPeers d = map (mkPeer d) (map off (extractAllEvmPeers d))"
  by (simp only: map_off_extractAll) (rule extractAll_firstOcc)

lemma offs_extractAll_iff:
  "p \<in> set (map off (extractAllEvmPeers d)) \<longleftrightarrow>
     matchesAt d p \<and>
     (\<forall>q. matchesAt d q \<and> q < p \<longrightarrow>
        subarray_from (window d q) 12 \<noteq> subarray_from (window d p) 12)"
  unfolding map_off_extractAll mem_firstOcc [OF matched_offsets_sorted] matched_offsets_set
  by (auto simp: bytes32ToEvm_eq_iff)

lemma mem_extractAll:
  "c \<in> set (extractAllEvmPeers d) \<Longrightarrow>
     c = mkPeer d (off c) \<and> off c \<in> set (map off (extractAllEvmPeers d))"
proof -
  assume c: "c \<in> set (extractAllEvmPeers d)"
  then have "c \<in> set (map (mkPeer d) (map off (extractAllEvmPeers d)))"
    by (subst extractAll_eq_mkPeer [symmetric])
  then obtain p where "c = mkPeer d p" by auto
  then have "c = mkPeer d (off c)" by (simp add: off_mkPeer)
  then show ?thesis using c by simp
qed

lemma distinct_evm_extractAll: "distinct (map peer.evm (extractAllEvmPeers d))"
proof -
  have "map peer.evm (extractAllEvmPeers d) =
      map (\<lambda>p. bytes32ToEvm (window d p)) (map off (extractAllEvmPeers d))"
    by (subst extractAll_eq_mkPeer) (simp add: o_def evm_mkPeer)
  then show ?thesis
    by (simp only: map_off_extractAll distinct_keys_firstOcc)
qed

lemma sorted_off_extractAll: "sorted_wrt (<) (map off (extractAllEvmPeers d))"
  unfolding map_off_extractAll by (rule sorted_firstOcc) (rule matched_offsets_sorted)

lemma lowest_occurrence:
  assumes "matchesAt d q"
  shows "\<exists>p. p \<in> set (map off (extractAllEvmPeers d)) \<and> p \<le> q \<and>
           subarray_from (window d p) 12 = subarray_from (window d q) 12"
proof -
  let ?S = "\<lambda>p. matchesAt d p \<and> subarray_from (window d p) 12 = subarray_from (window d q) 12"
  define p where "p = (LEAST p. ?S p)"
  have "?S q" using assms by simp
  then have sp: "?S p" and le: "p \<le> q"
    unfolding p_def by (rule LeastI, rule Least_le)
  have least: "\<not> ?S r" if "r < p" for r
    using that unfolding p_def by (rule not_less_Least)
  have "p \<in> set (map off (extractAllEvmPeers d))"
    unfolding offs_extractAll_iff using sp least by auto
  then show ?thesis using sp le by blast
qed

lemma single_None_iff: "extractPeerBytes32 d = None \<longleftrightarrow> (\<forall>q. \<not> matchesAt d q)"
proof -
  have "extractPeerBytes32 d = None \<longleftrightarrow>
      \<not> (\<exists>q. q \<in> set [0..<length d - 31] \<and> matchesAt d q)"
    by (simp only: extractPeerBytes32_def single_loop_find option.map_disc_iff find_None_iff)
  also have "\<dots> \<longleftrightarrow> (\<forall>q. \<not> matchesAt d q)"
    by (auto simp: matchesAt_def)
  finally show ?thesis .
qed

lemma single_Some:
  assumes "extractPeerBytes32 d = Some w"
  shows "\<exists>q. matchesAt d q \<and> (\<forall>r<q. \<not> matchesAt d r) \<and> w = window d q"
proof -
  from assms obtain q where f: "find (matchesAt d) [0..<length d - 31] = Some q"
    and w: "w = window d q"
    by (auto simp: extractPeerBytes32_def single_loop_find)
  from f obtain i where i: "i < length [0..<length d - 31]" "matchesAt d ([0..<length d - 31] ! i)"
      "q = [0..<length d - 31] ! i" "\<forall>j<i. \<not> matchesAt d ([0..<length d - 31] ! j)"
    unfolding find_Some_iff by blast
  then have qi: "q = i" by simp
  have "\<forall>r<q. \<not> matchesAt d r"
  proof (intro allI impI)
    fix r assume r: "r < q"
    then have "r < length [0..<length d - 31]" using i(1) qi by simp
    then have "[0..<length d - 31] ! r = r" by simp
    then show "\<not> matchesAt d r" using i(4) r qi by metis
  qed
  then show ?thesis using i(2,3) w by blast
qed

lemma mem_map_off: "p \<in> set (map off xs) \<Longrightarrow> \<exists>c. c \<in> set xs \<and> off c = p"
  by auto

subsection \<open>Soundness of the predicate\<close>

text \<open>
  Claim C4. A window of 32 zero bytes never yields a candidate: its offset is not among
  the offsets that \<open>extractAllEvmPeers\<close> reports, and it is not what
  \<open>extractPeerBytes32\<close> returns. A buffer that is one window of 32 bytes whose only
  non-zero byte is at position 31 yields exactly one candidate, at offset 0.
\<close>

theorem extraction_predicate_sound:
  "(p + 32 \<le> length d \<and> list_all (\<lambda>b. b = 0) (window d p) \<longrightarrow>
      p \<notin> off ` set (extractAllEvmPeers d) \<and> extractPeerBytes32 d \<noteq> Some (window d p))
   \<and> (length w = 32 \<and> (\<forall>i<32. w ! i \<noteq> 0 \<longleftrightarrow> i = 31) \<longrightarrow>
      extractAllEvmPeers w = [\<lparr>off = 0, b32 = hex w, peer.evm = bytes32ToEvm w\<rparr>] \<and>
      extractPeerBytes32 w = Some w)"
proof (intro conjI impI)
  assume a: "p + 32 \<le> length d \<and> list_all (\<lambda>b. b = 0) (window d p)"
  then have z: "list_all (\<lambda>b. b = 0) (drop 12 (window d p))"
    by (simp add: list_all_iff) (meson in_set_dropD)
  then have nm: "\<not> matchesAt d p" by (simp add: matchesAt_def)
  then have "p \<notin> set (map off (extractAllEvmPeers d))"
    by (simp only: offs_extractAll_iff) simp
  then show "p \<notin> off ` set (extractAllEvmPeers d)" by simp
  show "extractPeerBytes32 d \<noteq> Some (window d p)"
  proof
    assume "extractPeerBytes32 d = Some (window d p)"
    from single_Some [OF this] obtain q where "matchesAt d q" "window d p = window d q"
      by blast
    then have "\<not> list_all (\<lambda>b. b = 0) (drop 12 (window d p))" by (simp add: matchesAt_def)
    with z show False by simp
  qed
next
  assume a: "length w = 32 \<and> (\<forall>i<32. w ! i \<noteq> 0 \<longleftrightarrow> i = 31)"
  then have l: "length w = 32" by simp
  have win: "window w 0 = w" using l by (simp add: window_def subarray_def)
  have h: "list_all (\<lambda>b. b = 0) (take 12 w)"
  proof -
    have "w ! j = 0" if "j < 12" for j
    proof -
      from that have "j < 32" "j \<noteq> 31" by simp_all
      with a show ?thesis by blast
    qed
    then show ?thesis using l by (simp add: list_all_take_nth)
  qed
  have t: "\<not> list_all (\<lambda>b. b = 0) (drop 12 w)"
  proof
    assume "list_all (\<lambda>b. b = 0) (drop 12 w)"
    then have "w ! 31 = 0" unfolding list_all_drop_nth using l by simp
    moreover have "(31::nat) < 32" by simp
    ultimately show False using a by blast
  qed
  have m: "matchesAt w 0" using l h t by (simp add: matchesAt_def win)
  have u: "[0..<length w - 31] = [0]" using l by simp
  have "extractAllEvmPeers w = [mkPeer w 0]"
    by (simp add: extractAll_firstOcc u m)
  then show "extractAllEvmPeers w = [\<lparr>off = 0, b32 = hex w, peer.evm = bytes32ToEvm w\<rparr>]"
    by (simp add: mkPeer_def win)
  show "extractPeerBytes32 w = Some w"
    by (simp add: extractPeerBytes32_def single_loop_find u m win)
qed

text \<open>The theorem at the buffer of 32 zero bytes and at 31 zero bytes followed by 7.\<close>

theorem extraction_predicate_sound_witness:
  "0 \<notin> off ` set (extractAllEvmPeers (replicate 32 0)) \<and>
   extractPeerBytes32 (replicate 32 0) \<noteq> Some (replicate 32 0) \<and>
   extractAllEvmPeers (replicate 31 0 @ [7]) =
     [\<lparr>off = 0, b32 = hex (replicate 31 0 @ [7]), peer.evm = bytes32ToEvm (replicate 31 0 @ [7])\<rparr>] \<and>
   extractPeerBytes32 (replicate 31 0 @ [7]) = Some (replicate 31 0 @ [7])"
proof -
  have w: "window (replicate 32 0) 0 = replicate 32 (0::byte)"
    by (simp add: window_def subarray_def)
  have h1: "0 + 32 \<le> length (replicate 32 (0::byte)) \<and>
      list_all (\<lambda>b. b = 0) (window (replicate 32 (0::byte)) 0)"
    by (simp add: w list_all_iff)
  have h2: "length (replicate 31 0 @ [7::byte]) = 32 \<and>
      (\<forall>i<32. (replicate 31 0 @ [7::byte]) ! i \<noteq> 0 \<longleftrightarrow> i = 31)"
    by (auto simp: nth_append)
  show ?thesis
    using extraction_predicate_sound [of 0 "replicate 32 0" "replicate 31 0 @ [7]"] h1 h2
    by (simp only: w) simp
qed

subsection \<open>Deduplication and the single best candidate\<close>

text \<open>
  Claim C5. In full enumeration the reported entries have pairwise different decoded
  20-byte values and ascending offsets; every entry stands at a matching window, and no
  matching window at a lower offset has the same decoded value; every matching window
  is represented by an entry of the same decoded value at an offset not above it; two
  entries with the same decoded value are the same entry, so the key is the value and
  not the offset. \<open>extractPeerBytes32\<close> returns nothing exactly when no window matches,
  and otherwise the window at the lowest matching offset.
\<close>

theorem dedup_first_occurrence:
  "distinct (map peer.evm (extractAllEvmPeers d)) \<and>
   sorted_wrt (<) (map off (extractAllEvmPeers d)) \<and>
   (\<forall>c\<in>set (extractAllEvmPeers d).
      matchesAt d (off c) \<and> b32 c = hex (window d (off c)) \<and>
      peer.evm c = bytes32ToEvm (window d (off c)) \<and>
      (\<forall>q<off c. matchesAt d q \<longrightarrow>
         subarray_from (window d q) 12 \<noteq> subarray_from (window d (off c)) 12)) \<and>
   (\<forall>q. matchesAt d q \<longrightarrow>
      (\<exists>c\<in>set (extractAllEvmPeers d). off c \<le> q \<and>
         subarray_from (window d (off c)) 12 = subarray_from (window d q) 12)) \<and>
   (\<forall>x\<in>set (extractAllEvmPeers d). \<forall>y\<in>set (extractAllEvmPeers d).
      subarray_from (window d (off x)) 12 = subarray_from (window d (off y)) 12 \<longrightarrow> x = y) \<and>
   (extractPeerBytes32 d = None \<longleftrightarrow> (\<forall>q. \<not> matchesAt d q)) \<and>
   (\<forall>w. extractPeerBytes32 d = Some w \<longrightarrow>
      (\<exists>q. matchesAt d q \<and> (\<forall>r<q. \<not> matchesAt d r) \<and> w = window d q))"
proof (intro conjI)
  show "distinct (map peer.evm (extractAllEvmPeers d))" by (rule distinct_evm_extractAll)
  show "sorted_wrt (<) (map off (extractAllEvmPeers d))" by (rule sorted_off_extractAll)
  show "\<forall>c\<in>set (extractAllEvmPeers d).
      matchesAt d (off c) \<and> b32 c = hex (window d (off c)) \<and>
      peer.evm c = bytes32ToEvm (window d (off c)) \<and>
      (\<forall>q<off c. matchesAt d q \<longrightarrow>
         subarray_from (window d q) 12 \<noteq> subarray_from (window d (off c)) 12)"
  proof
    fix c assume "c \<in> set (extractAllEvmPeers d)"
    from mem_extractAll [OF this] have c: "c = mkPeer d (off c)"
      and o: "off c \<in> set (map off (extractAllEvmPeers d))" by simp_all
    have "b32 c = hex (window d (off c))" "peer.evm c = bytes32ToEvm (window d (off c))"
      by (subst c, simp add: mkPeer_def)+
    then show "matchesAt d (off c) \<and> b32 c = hex (window d (off c)) \<and>
      peer.evm c = bytes32ToEvm (window d (off c)) \<and>
      (\<forall>q<off c. matchesAt d q \<longrightarrow>
         subarray_from (window d q) 12 \<noteq> subarray_from (window d (off c)) 12)"
      using o unfolding offs_extractAll_iff by blast
  qed
  show "\<forall>q. matchesAt d q \<longrightarrow>
      (\<exists>c\<in>set (extractAllEvmPeers d). off c \<le> q \<and>
         subarray_from (window d (off c)) 12 = subarray_from (window d q) 12)"
  proof (intro allI impI)
    fix q assume "matchesAt d q"
    from lowest_occurrence [OF this] obtain p where
      p: "p \<in> set (map off (extractAllEvmPeers d))" "p \<le> q"
         "subarray_from (window d p) 12 = subarray_from (window d q) 12" by blast
    from p(1) obtain c where "c \<in> set (extractAllEvmPeers d)" "off c = p" by auto
    with p show "\<exists>c\<in>set (extractAllEvmPeers d). off c \<le> q \<and>
         subarray_from (window d (off c)) 12 = subarray_from (window d q) 12" by blast
  qed
  show "\<forall>x\<in>set (extractAllEvmPeers d). \<forall>y\<in>set (extractAllEvmPeers d).
      subarray_from (window d (off x)) 12 = subarray_from (window d (off y)) 12 \<longrightarrow> x = y"
  proof (intro ballI impI)
    fix x y assume xy: "x \<in> set (extractAllEvmPeers d)" "y \<in> set (extractAllEvmPeers d)"
      and e: "subarray_from (window d (off x)) 12 = subarray_from (window d (off y)) 12"
    have x: "x = mkPeer d (off x)" and y: "y = mkPeer d (off y)"
      using mem_extractAll xy by blast+
    have "peer.evm x = bytes32ToEvm (window d (off x))" "peer.evm y = bytes32ToEvm (window d (off y))"
      by (subst x, simp add: mkPeer_def, subst y, simp add: mkPeer_def)
    then have "peer.evm x = peer.evm y" using e by (simp add: bytes32ToEvm_eq_iff)
    then show "x = y" using distinct_evm_extractAll [of d] xy
      by (meson distinct_map inj_onD)
  qed
  show "extractPeerBytes32 d = None \<longleftrightarrow> (\<forall>q. \<not> matchesAt d q)" by (rule single_None_iff)
  show "\<forall>w. extractPeerBytes32 d = Some w \<longrightarrow>
      (\<exists>q. matchesAt d q \<and> (\<forall>r<q. \<not> matchesAt d r) \<and> w = window d q)"
    using single_Some by blast
qed

text \<open>
  The theorem at a buffer with matching windows at offsets 1, 33 and 65, the first and
  the last carrying the same value.
\<close>

theorem dedup_first_occurrence_witness:
  "map off (extractAllEvmPeers demo_dups) = [1, 33] \<and>
   matchesAt demo_dups 65 \<and>
   (\<exists>c\<in>set (extractAllEvmPeers demo_dups). off c \<le> 65 \<and>
      subarray_from (window demo_dups (off c)) 12 = subarray_from (window demo_dups 65) 12) \<and>
   matchesAt demo_dups 1 \<and>
   subarray_from (window demo_dups 1) 12 \<noteq> subarray_from (window demo_dups 33) 12 \<and>
   extractPeerBytes32 demo_dups = Some (window demo_dups 1) \<and>
   (\<exists>q. matchesAt demo_dups q \<and> \<not> matchesAt demo_dups 0 \<and>
      window demo_dups 1 = window demo_dups q)"
proof -
  have offs: "map off (extractAllEvmPeers demo_dups) = [1, 33]" by code_simp
  have m65: "matchesAt demo_dups 65" by code_simp
  have m1: "matchesAt demo_dups 1" by code_simp
  have n0: "\<not> matchesAt demo_dups 0" by code_simp
  have s: "extractPeerBytes32 demo_dups = Some (window demo_dups 1)" by code_simp
  note t = dedup_first_occurrence [of demo_dups]
  note t3 = t [THEN conjunct2, THEN conjunct2, THEN conjunct1]
  note t4 = t [THEN conjunct2, THEN conjunct2, THEN conjunct2, THEN conjunct1]
  note t7 = t [THEN conjunct2, THEN conjunct2, THEN conjunct2, THEN conjunct2, THEN conjunct2,
      THEN conjunct2]
  have a: "\<exists>c\<in>set (extractAllEvmPeers demo_dups). off c \<le> 65 \<and>
      subarray_from (window demo_dups (off c)) 12 = subarray_from (window demo_dups 65) 12"
    using t4 [rule_format, OF m65] .
  have "33 \<in> set (map off (extractAllEvmPeers demo_dups))" by (simp only: offs) simp
  then have "\<exists>c. c \<in> set (extractAllEvmPeers demo_dups) \<and> off c = 33"
    by (rule mem_map_off)
  then obtain c where c: "c \<in> set (extractAllEvmPeers demo_dups)" "off c = 33"
    by (elim exE conjE)
  have lt: "(1::nat) < off c" by (simp add: c(2))
  have "subarray_from (window demo_dups 1) 12 \<noteq> subarray_from (window demo_dups (off c)) 12"
    using t3 [rule_format, OF c(1), THEN conjunct2, THEN conjunct2, THEN conjunct2, rule_format,
        OF lt m1] .
  then have b: "subarray_from (window demo_dups 1) 12 \<noteq> subarray_from (window demo_dups 33) 12"
    unfolding c(2) .
  from t7 [rule_format, OF s] obtain q where q: "matchesAt demo_dups q"
      "window demo_dups 1 = window demo_dups q"
    by (elim exE conjE)
  have e: "\<exists>q. matchesAt demo_dups q \<and> \<not> matchesAt demo_dups 0 \<and>
      window demo_dups 1 = window demo_dups q"
    by (rule exI [of _ q]) (intro conjI q n0)
  show ?thesis by (intro conjI offs m65 a m1 b s e)
qed

section \<open>Properties of the targeted resolver\<close>

lemma derivePeerPda_cases:
  assumes "derivePeerPda fpa conn pid store n = Inr r"
  shows "\<exists>pLE pBE aLE.
    peerPdaFor fpa pid store n LE = Inr pLE \<and> peerPdaFor fpa pid store n BE = Inr pBE \<and>
    conn pLE = Inr aLE \<and>
    (aLE \<noteq> None \<longrightarrow> r = \<lparr>pda = Some pLE, ai = aLE, endian = Some LE\<rparr>) \<and>
    (aLE = None \<longrightarrow> (\<exists>aBE. conn pBE = Inr aBE \<and>
       (aBE \<noteq> None \<longrightarrow> r = \<lparr>pda = Some pBE, ai = aBE, endian = Some BE\<rparr>) \<and>
       (aBE = None \<longrightarrow> r = \<lparr>pda = None, ai = None, endian = None\<rparr>)))"
  using assms
  by (auto simp: derivePeerPda_def peerPdaFor_def split: sum.splits if_splits)

lemma demo_LE: "peerPdaFor demo_fpa demo_pid demo_store 30109 LE = Inr demo_pLE"
  by code_simp

lemma demo_BE: "peerPdaFor demo_fpa demo_pid demo_store 30109 BE = Inr demo_pBE"
  by code_simp

subsection \<open>Byte order of a resolved peer\<close>

text \<open>
  Claim C1, as the specification states it, fails on the code. \<open>derivePeerPda\<close> fetches the
  little-endian address first and returns at once when it holds an account: with buffers
  at both derived addresses (which differ) it reports \<open>LE\<close>, the same result as on a
  ledger that has the little-endian buffer only, so the ambiguity is resolved silently.
  For the identifier 0 both byte orders derive one and the same address, so the byte
  order reported is not the unique one deriving it.
\<close>

theorem byte_order_ambiguity_counterexample:
  "conn_of [(demo_pLE, demo_peer_account), (demo_pBE, demo_blank_account)] demo_pLE =
     Inr (Some demo_peer_account) \<and>
   conn_of [(demo_pLE, demo_peer_account), (demo_pBE, demo_blank_account)] demo_pBE =
     Inr (Some demo_blank_account) \<and>
   peerPdaFor demo_fpa demo_pid demo_store 30109 LE = Inr demo_pLE \<and>
   peerPdaFor demo_fpa demo_pid demo_store 30109 BE = Inr demo_pBE \<and>
   demo_pLE \<noteq> demo_pBE \<and>
   derivePeerPda demo_fpa (conn_of [(demo_pLE, demo_peer_account), (demo_pBE, demo_blank_account)])
     demo_pid demo_store 30109 =
     Inr \<lparr>pda = Some demo_pLE, ai = Some demo_peer_account, endian = Some LE\<rparr> \<and>
   derivePeerPda demo_fpa (conn_of [(demo_pLE, demo_peer_account)]) demo_pid demo_store 30109 =
     Inr \<lparr>pda = Some demo_pLE, ai = Some demo_peer_account, endian = Some LE\<rparr> \<and>
   peerPdaFor demo_fpa demo_pid demo_store 0 LE = peerPdaFor demo_fpa demo_pid demo_store 0 BE"
  by code_simp

text \<open>
  Claim C1, amended. Whenever \<open>derivePeerPda\<close> returns, both byte-order addresses have
  been derived, and the byte order reported is decided by the ledger in the order
  little-endian, then big-endian: \<open>LE\<close> exactly when the little-endian address holds a
  buffer (whatever the big-endian address holds), \<open>BE\<close> exactly when the little-endian
  address holds none and the big-endian address holds one, unknown exactly when neither
  holds one. The address and the buffer reported are those of the byte order reported.
\<close>

theorem byte_order_LE_first:
  assumes "derivePeerPda fpa conn pid store n = Inr r"
  shows "\<exists>pLE pBE.
     peerPdaFor fpa pid store n LE = Inr pLE \<and> peerPdaFor fpa pid store n BE = Inr pBE \<and>
     (PeerPda.endian r = Some LE \<longleftrightarrow> (\<exists>a. conn pLE = Inr (Some a))) \<and>
     (PeerPda.endian r = Some BE \<longleftrightarrow> conn pLE = Inr None \<and> (\<exists>a. conn pBE = Inr (Some a))) \<and>
     (PeerPda.endian r = None \<longleftrightarrow> conn pLE = Inr None \<and> conn pBE = Inr None) \<and>
     (PeerPda.endian r = Some LE \<longrightarrow> pda r = Some pLE \<and> conn pLE = Inr (ai r)) \<and>
     (PeerPda.endian r = Some BE \<longrightarrow> pda r = Some pBE \<and> conn pBE = Inr (ai r)) \<and>
     (PeerPda.endian r = None \<longrightarrow> pda r = None \<and> ai r = None)"
proof -
  from derivePeerPda_cases [OF assms] obtain pLE pBE aLE where
    all: "peerPdaFor fpa pid store n LE = Inr pLE \<and> peerPdaFor fpa pid store n BE = Inr pBE \<and>
    conn pLE = Inr aLE \<and>
    (aLE \<noteq> None \<longrightarrow> r = \<lparr>pda = Some pLE, ai = aLE, endian = Some LE\<rparr>) \<and>
    (aLE = None \<longrightarrow> (\<exists>aBE. conn pBE = Inr aBE \<and>
       (aBE \<noteq> None \<longrightarrow> r = \<lparr>pda = Some pBE, ai = aBE, endian = Some BE\<rparr>) \<and>
       (aBE = None \<longrightarrow> r = \<lparr>pda = None, ai = None, endian = None\<rparr>)))"
    by (elim exE)
  then have l: "peerPdaFor fpa pid store n LE = Inr pLE"
    and b: "peerPdaFor fpa pid store n BE = Inr pBE"
    and c: "conn pLE = Inr aLE"
    and c1: "aLE \<noteq> None \<longrightarrow> r = \<lparr>pda = Some pLE, ai = aLE, endian = Some LE\<rparr>"
    and c2: "aLE = None \<longrightarrow> (\<exists>aBE. conn pBE = Inr aBE \<and>
       (aBE \<noteq> None \<longrightarrow> r = \<lparr>pda = Some pBE, ai = aBE, endian = Some BE\<rparr>) \<and>
       (aBE = None \<longrightarrow> r = \<lparr>pda = None, ai = None, endian = None\<rparr>))"
    by simp_all
  show ?thesis
  proof (rule exI [of _ pLE], rule exI [of _ pBE], intro conjI l b)
    show "PeerPda.endian r = Some LE \<longleftrightarrow> (\<exists>a. conn pLE = Inr (Some a))"
      using c c1 c2 by (cases aLE) auto
    show "PeerPda.endian r = Some BE \<longleftrightarrow> conn pLE = Inr None \<and> (\<exists>a. conn pBE = Inr (Some a))"
      using c c1 c2 by (cases aLE) auto
    show "PeerPda.endian r = None \<longleftrightarrow> conn pLE = Inr None \<and> conn pBE = Inr None"
      using c c1 c2 by (cases aLE) auto
    show "PeerPda.endian r = Some LE \<longrightarrow> pda r = Some pLE \<and> conn pLE = Inr (ai r)"
      using c c1 c2 by (cases aLE) auto
    show "PeerPda.endian r = Some BE \<longrightarrow> pda r = Some pBE \<and> conn pBE = Inr (ai r)"
      using c c1 c2 by (cases aLE) auto
    show "PeerPda.endian r = None \<longrightarrow> pda r = None \<and> ai r = None"
      using c c1 c2 by (cases aLE) auto
  qed
qed

text \<open>The theorem on a ledger that holds a buffer at the big-endian address only.\<close>

theorem byte_order_LE_first_witness:
  "\<exists>pLE pBE.
     peerPdaFor demo_fpa demo_pid demo_store 30109 LE = Inr pLE \<and>
     peerPdaFor demo_fpa demo_pid demo_store 30109 BE = Inr pBE \<and>
     conn_of [(demo_pBE, demo_peer_account)] pLE = Inr None \<and>
     (\<exists>a. conn_of [(demo_pBE, demo_peer_account)] pBE = Inr (Some a)) \<and>
     derivePeerPda demo_fpa (conn_of [(demo_pBE, demo_peer_account)]) demo_pid demo_store 30109 =
       Inr \<lparr>pda = Some pBE, ai = Some demo_peer_account, endian = Some BE\<rparr>"
proof -
  let ?conn = "conn_of [(demo_pBE, demo_peer_account)]"
  let ?r = "\<lparr>pda = Some demo_pBE, ai = Some demo_peer_account, endian = Some BE\<rparr>"
  have e: "derivePeerPda demo_fpa ?conn demo_pid demo_store 30109 = Inr ?r"
    by code_simp
  from byte_order_LE_first [OF e] obtain pLE pBE where
    l: "peerPdaFor demo_fpa demo_pid demo_store 30109 LE = Inr pLE" and
    b: "peerPdaFor demo_fpa demo_pid demo_store 30109 BE = Inr pBE" and
    be: "PeerPda.endian ?r = Some BE \<longleftrightarrow> ?conn pLE = Inr None \<and> (\<exists>a. ?conn pBE = Inr (Some a))" and
    pd: "PeerPda.endian ?r = Some BE \<longrightarrow> pda ?r = Some pBE \<and> ?conn pBE = Inr (ai ?r)"
    by (elim exE conjE)
  have en: "PeerPda.endian ?r = Some BE" by simp
  from be en have c: "?conn pLE = Inr None" "\<exists>a. ?conn pBE = Inr (Some a)" by simp_all
  from pd en have "pda ?r = Some pBE" by simp
  then have "pBE = demo_pBE" by simp
  with e have e': "derivePeerPda demo_fpa ?conn demo_pid demo_store 30109 =
       Inr \<lparr>pda = Some pBE, ai = Some demo_peer_account, endian = Some BE\<rparr>" by simp
  show ?thesis
    by (rule exI [of _ pLE], rule exI [of _ pBE]) (intro conjI l b c e')
qed

subsection \<open>Absent buffers and buffers without a matching window\<close>

lemma readOne_Inr:
  "derivePeerPda fpa conn pid store n = Inr pr \<Longrightarrow>
   readOne fpa b58 conn pid store n =
     Inr \<lparr>row.eid = n, peerPda = toB58 b58 (pda pr), exists = (ai pr \<noteq> None),
          row.endian = PeerPda.endian pr,
          bytes32 = (case (case ai pr of Some a \<Rightarrow> extractPeerBytes32 (data a) | None \<Rightarrow> None) of
                       Some b \<Rightarrow> Some (hex b) | None \<Rightarrow> None),
          row.evm = (case (case ai pr of Some a \<Rightarrow> extractPeerBytes32 (data a) | None \<Rightarrow> None) of
                       Some b \<Rightarrow> Some (bytes32ToEvm b) | None \<Rightarrow> None)\<rparr>"
  by (simp add: readOne_def Let_def)

lemma derivePeerPda_absent:
  "peerPdaFor fpa pid store n LE = Inr pLE \<Longrightarrow> peerPdaFor fpa pid store n BE = Inr pBE \<Longrightarrow>
   conn pLE = Inr None \<Longrightarrow> conn pBE = Inr None \<Longrightarrow>
   derivePeerPda fpa conn pid store n = Inr \<lparr>pda = None, ai = None, endian = None\<rparr>"
  by (auto simp: derivePeerPda_def peerPdaFor_def split: sum.splits if_splits)

lemma derivePeerPda_found:
  "peerPdaFor fpa pid store n LE = Inr pLE \<Longrightarrow> peerPdaFor fpa pid store n BE = Inr pBE \<Longrightarrow>
   conn pLE = Inr (Some a) \<or> conn pLE = Inr None \<and> conn pBE = Inr (Some a) \<Longrightarrow>
   \<exists>pr. derivePeerPda fpa conn pid store n = Inr pr \<and> ai pr = Some a"
  by (auto simp: derivePeerPda_def peerPdaFor_def split: sum.splits if_splits)

text \<open>
  Claim C6. When both byte-order addresses are derived and neither holds a buffer,
  \<open>readOne\<close> returns a row with \<open>exists = False\<close> (and no address, byte order or remote
  address). When the buffer found, at the little-endian address or else at the
  big-endian one, has no window satisfying the predicate, \<open>readOne\<close> returns a row with
  \<open>exists = True\<close> and a null remote address.
\<close>

theorem readOne_absent_or_unmatched:
  "(peerPdaFor fpa pid store n LE = Inr pLE \<and> peerPdaFor fpa pid store n BE = Inr pBE \<longrightarrow>
      (conn pLE = Inr None \<and> conn pBE = Inr None \<longrightarrow>
         (\<exists>r. readOne fpa b58 conn pid store n = Inr r \<and> \<not> exists r \<and> row.eid r = n \<and>
              peerPda r = None \<and> row.endian r = None \<and> bytes32 r = None \<and> row.evm r = None)) \<and>
      ((conn pLE = Inr (Some a) \<or> conn pLE = Inr None \<and> conn pBE = Inr (Some a)) \<and>
        (\<forall>q. \<not> matchesAt (data a) q) \<longrightarrow>
         (\<exists>r. readOne fpa b58 conn pid store n = Inr r \<and> exists r \<and> row.eid r = n \<and>
              bytes32 r = None \<and> row.evm r = None)))"
proof (intro impI conjI)
  assume p: "peerPdaFor fpa pid store n LE = Inr pLE \<and> peerPdaFor fpa pid store n BE = Inr pBE"
    and c: "conn pLE = Inr None \<and> conn pBE = Inr None"
  have "derivePeerPda fpa conn pid store n = Inr \<lparr>pda = None, ai = None, endian = None\<rparr>"
    using p c derivePeerPda_absent [of fpa pid store n pLE pBE conn] by blast
  from readOne_Inr [OF this, of b58]
  show "\<exists>r. readOne fpa b58 conn pid store n = Inr r \<and> \<not> exists r \<and> row.eid r = n \<and>
              peerPda r = None \<and> row.endian r = None \<and> bytes32 r = None \<and> row.evm r = None"
    by (simp add: toB58_def)
next
  assume p: "peerPdaFor fpa pid store n LE = Inr pLE \<and> peerPdaFor fpa pid store n BE = Inr pBE"
    and c: "(conn pLE = Inr (Some a) \<or> conn pLE = Inr None \<and> conn pBE = Inr (Some a)) \<and>
        (\<forall>q. \<not> matchesAt (data a) q)"
  from derivePeerPda_found [of fpa pid store n pLE pBE conn a] p c
  obtain pr where pr: "derivePeerPda fpa conn pid store n = Inr pr" "ai pr = Some a" by blast
  have x: "extractPeerBytes32 (data a) = None" using c by (simp add: single_None_iff)
  from readOne_Inr [OF pr(1), of b58]
  show "\<exists>r. readOne fpa b58 conn pid store n = Inr r \<and> exists r \<and> row.eid r = n \<and>
              bytes32 r = None \<and> row.evm r = None"
    by (simp add: pr(2) x)
qed

text \<open>
  The theorem on the empty ledger, and on a ledger whose little-endian address holds 40
  bytes \<open>0x11\<close>.
\<close>

theorem readOne_absent_or_unmatched_witness:
  "(\<exists>r. readOne demo_fpa demo_toBase58 (conn_of []) demo_pid demo_store 30109 = Inr r \<and>
        \<not> exists r \<and> row.eid r = 30109 \<and> peerPda r = None \<and> row.endian r = None \<and>
        bytes32 r = None \<and> row.evm r = None) \<and>
   (\<exists>r. readOne demo_fpa demo_toBase58 (conn_of [(demo_pLE, demo_blank_account)])
          demo_pid demo_store 30109 = Inr r \<and>
        exists r \<and> row.eid r = 30109 \<and> bytes32 r = None \<and> row.evm r = None)"
proof -
  have p: "peerPdaFor demo_fpa demo_pid demo_store 30109 LE = Inr demo_pLE \<and>
      peerPdaFor demo_fpa demo_pid demo_store 30109 BE = Inr demo_pBE"
    using demo_LE demo_BE by (rule conjI)
  have c0: "conn_of [] demo_pLE = Inr None \<and> conn_of [] demo_pBE = Inr None"
    by (simp add: conn_of_def)
  have c1: "conn_of [(demo_pLE, demo_blank_account)] demo_pLE = Inr (Some demo_blank_account)"
    by (simp add: conn_of_def)
  have x: "extractPeerBytes32 (data demo_blank_account) = None" by code_simp
  have nm: "\<forall>q. \<not> matchesAt (data demo_blank_account) q"
    by (rule single_None_iff [THEN iffD1, OF x])
  note t0 = readOne_absent_or_unmatched [where fpa = demo_fpa and pid = demo_pid
      and store = demo_store and n = 30109 and pLE = demo_pLE and pBE = demo_pBE
      and conn = "conn_of []" and a = demo_blank_account and ?b58.0 = demo_toBase58,
      THEN mp, OF p, THEN conjunct1, THEN mp, OF c0]
  note t1 = readOne_absent_or_unmatched [where fpa = demo_fpa and pid = demo_pid
      and store = demo_store and n = 30109 and pLE = demo_pLE and pBE = demo_pBE
      and conn = "conn_of [(demo_pLE, demo_blank_account)]" and a = demo_blank_account
      and ?b58.0 = demo_toBase58,
      THEN mp, OF p, THEN conjunct2, THEN mp, OF conjI, OF disjI1, OF c1 nm]
  show ?thesis using t0 t1 by (rule conjI)
qed

section \<open>Properties of the batch loop\<close>

lemma batch_loop_append:
  "batch_loop fpa b58 conn pid store ns rows =
     rows @ batch_loop fpa b58 conn pid store ns []"
proof (induction ns arbitrary: rows)
  case Nil
  then show ?case by simp
next
  case (Cons n ns)
  show ?case
  proof (cases "readOne fpa b58 conn pid store n")
    case (Inl e)
    then show ?thesis using Cons [of rows] by simp
  next
    case (Inr r)
    then show ?thesis using Cons [of rows] Cons [of "rows @ [r]"] Cons [of "[r]"] by simp
  qed
qed

lemma batch_loop_app:
  "batch_loop fpa b58 conn pid store (xs @ ys) rows =
     batch_loop fpa b58 conn pid store ys (batch_loop fpa b58 conn pid store xs rows)"
  by (induction xs arbitrary: rows) (auto split: sum.splits)

lemma batch_loop_set:
  "set (batch_loop fpa b58 conn pid store ns []) =
     {r. \<exists>n\<in>set ns. readOne fpa b58 conn pid store n = Inr r \<and> exists r}"
proof (induction ns)
  case Nil
  then show ?case by simp
next
  case (Cons n ns)
  show ?case
  proof (cases "readOne fpa b58 conn pid store n")
    case (Inl e)
    then show ?thesis using Cons by auto
  next
    case (Inr r)
    show ?thesis
    proof (cases "exists r")
      case True
      have "set (batch_loop fpa b58 conn pid store (n # ns) []) =
          insert r (set (batch_loop fpa b58 conn pid store ns []))"
        using Inr True batch_loop_append [of fpa b58 conn pid store ns "[r]"] by simp
      then show ?thesis using Cons Inr True by auto
    next
      case False
      then show ?thesis using Cons Inr by auto
    qed
  qed
qed

text \<open>
  Claim C9, as the specification states it, fails on the code: the failure of one
  identifier is caught, but nothing is logged. With a ledger whose fetch throws for the
  identifier 30101, the report of the batch \<open>[30101, 30109]\<close>, from which everything
  printed is taken, is the report of the batch \<open>[30109]\<close>.
\<close>

theorem batch_failure_not_logged_counterexample:
  "readOne demo_fpa demo_toBase58 (conn_failing_at demo_pLE_30101 [(demo_pLE, demo_peer_account)])
     demo_pid demo_store 30101 = Inl RpcError \<and>
   main_list demo_fpa demo_toBase58 (conn_failing_at demo_pLE_30101 [(demo_pLE, demo_peer_account)])
     ''rpc'' demo_pid [30101, 30109] =
   main_list demo_fpa demo_toBase58 (conn_failing_at demo_pLE_30101 [(demo_pLE, demo_peer_account)])
     ''rpc'' demo_pid [30109] \<and>
   main_list demo_fpa demo_toBase58 (conn_failing_at demo_pLE_30101 [(demo_pLE, demo_peer_account)])
     ''rpc'' demo_pid [30101, 30109] =
   Inr \<lparr>batch_report.rpc = ''rpc'', programId = ''01'',
        storePda = Some ''53746f726501'', storeExists = False, storeOwner = None,
        peersFound = 1,
        peers = [\<lparr>row.eid = 30109,
                  peerPda = Some ''5065657253746f7265019d75000001'',
                  exists = True, row.endian = Some LE,
                  bytes32 = Some ''0x000000000000000000000000abababababababababababababababababababab'',
                  row.evm = Some ''0xabababababababababababababababababababab''\<rparr>]\<rparr>"
  by code_simp

text \<open>
  Claim C9, amended. A failure raised while one identifier is processed does not abort
  the batch and leaves no trace: the rows collected, and the whole report, are those of
  the batch without that identifier. The rows collected are exactly the rows of the
  identifiers for which \<open>readOne\<close> returns a row with \<open>exists = True\<close>.
\<close>

theorem batch_skips_failures_silently:
  "(readOne fpa b58 conn pid store bad = Inl e \<longrightarrow>
      batch_loop fpa b58 conn pid store (xs @ bad # ys) [] =
        batch_loop fpa b58 conn pid store (xs @ ys) [] \<and>
      (deriveStorePda fpa pid = Inr store \<longrightarrow>
         main_list fpa b58 conn url pid (xs @ bad # ys) = main_list fpa b58 conn url pid (xs @ ys))) \<and>
   (\<forall>n\<in>set ns. \<forall>r. readOne fpa b58 conn pid store n = Inr r \<and> exists r \<longrightarrow>
      r \<in> set (batch_loop fpa b58 conn pid store ns [])) \<and>
   (\<forall>r\<in>set (batch_loop fpa b58 conn pid store ns []).
      \<exists>n\<in>set ns. readOne fpa b58 conn pid store n = Inr r \<and> exists r)"
proof (intro conjI impI)
  assume b: "readOne fpa b58 conn pid store bad = Inl e"
  show l: "batch_loop fpa b58 conn pid store (xs @ bad # ys) [] =
        batch_loop fpa b58 conn pid store (xs @ ys) []"
    using b by (simp add: batch_loop_app)
  assume "deriveStorePda fpa pid = Inr store"
  then show "main_list fpa b58 conn url pid (xs @ bad # ys) = main_list fpa b58 conn url pid (xs @ ys)"
    by (simp add: main_list_def l split: sum.splits)
next
  show "\<forall>n\<in>set ns. \<forall>r. readOne fpa b58 conn pid store n = Inr r \<and> exists r \<longrightarrow>
      r \<in> set (batch_loop fpa b58 conn pid store ns [])"
    unfolding batch_loop_set by blast
  show "\<forall>r\<in>set (batch_loop fpa b58 conn pid store ns []).
      \<exists>n\<in>set ns. readOne fpa b58 conn pid store n = Inr r \<and> exists r"
    unfolding batch_loop_set by blast
qed

text \<open>The theorem on the batch \<open>[30101, 30109]\<close> over the ledger that throws for 30101.\<close>

theorem batch_skips_failures_silently_witness:
  "batch_loop demo_fpa demo_toBase58
     (conn_failing_at demo_pLE_30101 [(demo_pLE, demo_peer_account)]) demo_pid demo_store
     [30101, 30109] [] =
   batch_loop demo_fpa demo_toBase58
     (conn_failing_at demo_pLE_30101 [(demo_pLE, demo_peer_account)]) demo_pid demo_store
     [30109] [] \<and>
   main_list demo_fpa demo_toBase58 (conn_failing_at demo_pLE_30101 [(demo_pLE, demo_peer_account)])
     ''rpc'' demo_pid [30101, 30109] =
   main_list demo_fpa demo_toBase58 (conn_failing_at demo_pLE_30101 [(demo_pLE, demo_peer_account)])
     ''rpc'' demo_pid [30109] \<and>
   (\<exists>r. readOne demo_fpa demo_toBase58
          (conn_failing_at demo_pLE_30101 [(demo_pLE, demo_peer_account)]) demo_pid demo_store
          30109 = Inr r \<and> exists r \<and>
        r \<in> set (batch_loop demo_fpa demo_toBase58
          (conn_failing_at demo_pLE_30101 [(demo_pLE, demo_peer_account)]) demo_pid demo_store
          [30101, 30109] []))"
proof -
  let ?conn = "conn_failing_at demo_pLE_30101 [(demo_pLE, demo_peer_account)]"
  let ?r = "\<lparr>row.eid = 30109, peerPda = Some ''5065657253746f7265019d75000001'',
      exists = True, row.endian = Some LE,
      bytes32 = Some ''0x000000000000000000000000abababababababababababababababababababab'',
      row.evm = Some ''0xabababababababababababababababababababab''\<rparr>"
  have bad: "readOne demo_fpa demo_toBase58 ?conn demo_pid demo_store 30101 = Inl RpcError"
    by code_simp
  have st: "deriveStorePda demo_fpa demo_pid = Inr demo_store" by code_simp
  have ok: "readOne demo_fpa demo_toBase58 ?conn demo_pid demo_store 30109 = Inr ?r \<and> exists ?r"
    by code_simp
  note t = batch_skips_failures_silently [where fpa = demo_fpa and ?b58.0 = demo_toBase58
      and conn = ?conn and pid = demo_pid and store = demo_store and bad = 30101
      and e = RpcError and xs = "[]" and ys = "[30109]" and ns = "[30101, 30109]" and url = "''rpc''"]
  note t1 = t [THEN conjunct1, THEN mp, OF bad]
  have a: "batch_loop demo_fpa demo_toBase58 ?conn demo_pid demo_store [30101, 30109] [] =
      batch_loop demo_fpa demo_toBase58 ?conn demo_pid demo_store [30109] []"
    using t1 [THEN conjunct1] by (simp only: append_Nil)
  have b: "main_list demo_fpa demo_toBase58 ?conn ''rpc'' demo_pid [30101, 30109] =
      main_list demo_fpa demo_toBase58 ?conn ''rpc'' demo_pid [30109]"
    using t1 [THEN conjunct2, THEN mp, OF st] by (simp only: append_Nil)
  have mem: "(30109::int) \<in> set [30101, 30109]" by simp
  have c: "?r \<in> set (batch_loop demo_fpa demo_toBase58 ?conn demo_pid demo_store [30101, 30109] [])"
    using t [THEN conjunct2, THEN conjunct1, rule_format, OF mem ok] .
  show ?thesis
    by (intro conjI a b exI [of _ ?r] ok [THEN conjunct1] ok [THEN conjunct2] c)
qed

section \<open>Properties of the enumerate script\<close>


















subsection \<open>Where the remote address of a record comes from\<close>




subsection \<open>Order of the output\<close>




section \<open>Properties of the command-line parser\<close>

lemma startsWith_take: "startsWith s ''--'' \<longleftrightarrow> take 2 s = ''--''"
  by (simp add: startsWith_def numeral_2_eq_2)

lemma option_token_iff: "s = ''--'' @ k \<longleftrightarrow> startsWith s ''--'' \<and> drop 2 s = k"
proof
  assume "s = ''--'' @ k"
  then show "startsWith s ''--'' \<and> drop 2 s = k" by (simp add: startsWith_take)
next
  assume a: "startsWith s ''--'' \<and> drop 2 s = k"
  have "s = take 2 s @ drop 2 s" by simp
  also have "\<dots> = ''--'' @ k" using a by (simp only: startsWith_take)
  finally show "s = ''--'' @ k" .
qed

lemma find_snoc:
  "find P (xs @ [x]) =
     (case find P xs of Some j \<Rightarrow> Some j | None \<Rightarrow> if P x then Some x else None)"
  by (induction xs) simp_all

lemma find_rev_upt_step:
  "i < n \<Longrightarrow> find P (rev [i..<n]) =
     (case find P (rev [i + 1..<n]) of Some j \<Rightarrow> Some j | None \<Rightarrow> if P i then Some i else None)"
  by (simp add: upt_conv_Cons find_snoc)

lemma find_rev_upt_step2:
  "i + 1 < n \<Longrightarrow> \<not> P (i + 1) \<Longrightarrow> find P (rev [i..<n]) =
     (case find P (rev [i + 1 + 1..<n]) of Some j \<Rightarrow> Some j | None \<Rightarrow> if P i then Some i else None)"
proof -
  assume a: "i + 1 < n" "\<not> P (i + 1)"
  then have "i < n" by simp
  from find_rev_upt_step [OF this, of P] find_rev_upt_step [OF a(1), of P] a(2)
  show ?thesis by (simp split: option.splits)
qed

lemma parseArgs_loop_char:
  "parseArgs_loop a i m k =
     (case find (isOption a k) (rev [i..<length a]) of
        None \<Rightarrow> m k | Some j \<Rightarrow> Some (valueAt a j))"
proof (induction "length a - i" arbitrary: i m rule: less_induct)
  case less
  let ?P = "isOption a k"
  show ?case
  proof (cases "i < length a")
    case False
    then have "parseArgs_loop a i m = m" by (subst parseArgs_loop.simps) simp
    then show ?thesis using False by simp
  next
    case lt: True
    then have d1: "length a - (i + 1) < length a - i" by simp
    show ?thesis
    proof (cases "startsWith (a ! i) ''--''")
      case nsw: False
      then have np: "\<not> ?P i" using option_token_iff [of "a ! i" k] unfolding isOption_def by blast
      have "parseArgs_loop a i m = parseArgs_loop a (i + 1) m"
        by (subst parseArgs_loop.simps) (simp add: lt nsw Let_def)
      then have "parseArgs_loop a i m k =
          (case find ?P (rev [i + 1..<length a]) of None \<Rightarrow> m k | Some j \<Rightarrow> Some (valueAt a j))"
        using less [OF d1, of m] by simp
      then show ?thesis
        by (simp add: find_rev_upt_step [OF lt, of ?P] np split: option.splits)
    next
      case sw: True
      let ?key = "drop 2 (a ! i)"
      have pk: "?P i \<longleftrightarrow> ?key = k"
        using sw option_token_iff [of "a ! i" k] unfolding isOption_def by blast
      show ?thesis
      proof (cases "i + 1 < length a \<and> a ! (i + 1) \<noteq> [] \<and> \<not> startsWith (a ! (i + 1)) ''--''")
        case c: True
        then have v: "valueAt a i = a ! (i + 1)" by (simp add: valueAt_def)
        from c have np: "\<not> ?P (i + 1)"
          using option_token_iff [of "a ! (i + 1)" k] unfolding isOption_def by blast
        from c have "i + 1 < length a" by blast
        then have d2: "length a - (i + 1 + 1) < length a - i" by arith
        have "parseArgs_loop a i m = parseArgs_loop a (i + 1 + 1) (m(?key \<mapsto> a ! (i + 1)))"
          using c by (subst parseArgs_loop.simps) (simp add: lt sw Let_def)
        then have "parseArgs_loop a i m k =
            (case find ?P (rev [i + 1 + 1..<length a]) of
               None \<Rightarrow> (m(?key \<mapsto> a ! (i + 1))) k | Some j \<Rightarrow> Some (valueAt a j))"
          using less [OF d2, of "m(?key \<mapsto> a ! (i + 1))"] by simp
        moreover have "find ?P (rev [i..<length a]) =
            (case find ?P (rev [i + 1 + 1..<length a]) of
               Some j \<Rightarrow> Some j | None \<Rightarrow> if ?P i then Some i else None)"
          using c np by (intro find_rev_upt_step2) simp_all
        ultimately show ?thesis
          using pk v by (simp split: option.splits)
      next
        case c: False
        then have v: "valueAt a i = ''true''" unfolding valueAt_def by (rule if_not_P)
        have "parseArgs_loop a i m = parseArgs_loop a (i + 1) (m(?key \<mapsto> ''true''))"
          using c by (subst parseArgs_loop.simps) (auto simp add: lt sw Let_def)
        then have "parseArgs_loop a i m k =
            (case find ?P (rev [i + 1..<length a]) of
               None \<Rightarrow> (m(?key \<mapsto> ''true'')) k | Some j \<Rightarrow> Some (valueAt a j))"
          using less [OF d1, of "m(?key \<mapsto> ''true'')"] by simp
        then show ?thesis
          using pk v by (simp add: find_rev_upt_step [OF lt, of ?P] split: option.splits)
      qed
    qed
  qed
qed

lemma find_rev_upt_Some:
  "find P (rev [0..<n]) = Some i \<longleftrightarrow> i < n \<and> P i \<and> (\<forall>j. i < j \<and> j < n \<longrightarrow> \<not> P j)"
proof (induction n)
  case 0
  then show ?case by simp
next
  case (Suc n)
  show ?case
  proof (cases "P n")
    case True
    then have f: "find P (rev [0..<Suc n]) = Some n" by simp
    have "(i < Suc n \<and> P i \<and> (\<forall>j. i < j \<and> j < Suc n \<longrightarrow> \<not> P j)) \<longleftrightarrow> i = n"
    proof
      assume a: "i < Suc n \<and> P i \<and> (\<forall>j. i < j \<and> j < Suc n \<longrightarrow> \<not> P j)"
      show "i = n"
      proof (rule ccontr)
        assume "i \<noteq> n"
        with a have "i < n" by simp
        with a have "\<not> P n" by simp
        with True show False by simp
      qed
    next
      assume e: "i = n"
      have "\<not> (n < j \<and> j < Suc n)" for j by arith
      then have "\<forall>j. n < j \<and> j < Suc n \<longrightarrow> \<not> P j" by blast
      with True e show "i < Suc n \<and> P i \<and> (\<forall>j. i < j \<and> j < Suc n \<longrightarrow> \<not> P j)" by simp
    qed
    with f show ?thesis by (simp only: option.inject) blast
  next
    case False
    then have f: "find P (rev [0..<Suc n]) = find P (rev [0..<n])" by simp
    have "(i < Suc n \<and> P i \<and> (\<forall>j. i < j \<and> j < Suc n \<longrightarrow> \<not> P j)) \<longleftrightarrow>
        (i < n \<and> P i \<and> (\<forall>j. i < j \<and> j < n \<longrightarrow> \<not> P j))"
    proof
      assume a: "i < Suc n \<and> P i \<and> (\<forall>j. i < j \<and> j < Suc n \<longrightarrow> \<not> P j)"
      with False have "i \<noteq> n" by blast
      with a have "i < n" by simp
      moreover have "\<forall>j. i < j \<and> j < n \<longrightarrow> \<not> P j" using a by simp
      ultimately show "i < n \<and> P i \<and> (\<forall>j. i < j \<and> j < n \<longrightarrow> \<not> P j)" using a by blast
    next
      assume a: "i < n \<and> P i \<and> (\<forall>j. i < j \<and> j < n \<longrightarrow> \<not> P j)"
      have "\<forall>j. i < j \<and> j < Suc n \<longrightarrow> \<not> P j"
      proof (intro allI impI)
        fix j assume j: "i < j \<and> j < Suc n"
        show "\<not> P j"
        proof (cases "j = n")
          case True
          with False show ?thesis by simp
        next
          case False
          with j have "j < n" by simp
          with a j show ?thesis by blast
        qed
      qed
      with a show "i < Suc n \<and> P i \<and> (\<forall>j. i < j \<and> j < Suc n \<longrightarrow> \<not> P j)" by simp
    qed
    with f Suc show ?thesis by simp
  qed
qed

lemma find_rev_upt_None: "find P (rev [0..<n]) = None \<longleftrightarrow> (\<forall>j<n. \<not> P j)"
  by (simp add: find_None_iff)

lemma valueAt_true_iff: "i < length a \<Longrightarrow> valueAt a i = ''true'' \<longleftrightarrow> flagTrue a i"
proof -
  assume i: "i < length a"
  show ?thesis
  proof (cases "i + 1 < length a \<and> a ! (i + 1) \<noteq> [] \<and> \<not> startsWith (a ! (i + 1)) ''--''")
    case True
    then have "valueAt a i = a ! (i + 1)" unfolding valueAt_def by (rule if_P)
    then show ?thesis using True unfolding flagTrue_def by auto
  next
    case False
    then have v: "valueAt a i = ''true''" unfolding valueAt_def by (rule if_not_P)
    from False i have "i + 1 = length a \<or> a ! (i + 1) = [] \<or> startsWith (a ! (i + 1)) ''--''"
      by auto
    then have "flagTrue a i" unfolding flagTrue_def by blast
    with v show ?thesis by simp
  qed
qed

lemma flag_value:
  "(getOr (parseArgs_loop a 0 Map.empty) k ''false'' = ''true'') \<longleftrightarrow>
     (\<exists>i. lastOption a k = Some i \<and> flagTrue a i)"
proof (cases "lastOption a k")
  case None
  then have "parseArgs_loop a 0 Map.empty k = None"
    by (simp add: parseArgs_loop_char lastOption_def)
  then have "getOr (parseArgs_loop a 0 Map.empty) k ''false'' = ''false''"
    by (simp add: getOr_def)
  with None show ?thesis by simp
next
  case (Some i)
  then have "i < length a" unfolding lastOption_def find_rev_upt_Some by blast
  from valueAt_true_iff [OF this] have v: "valueAt a i = ''true'' \<longleftrightarrow> flagTrue a i" .
  from Some have "parseArgs_loop a 0 Map.empty k = Some (valueAt a i)"
    by (simp add: parseArgs_loop_char lastOption_def)
  then have "getOr (parseArgs_loop a 0 Map.empty) k ''false'' = valueAt a i"
    by (simp add: getOr_def)
  with Some v show ?thesis by simp
qed

lemma parseArgs_flags:
  "parseArgs parseInt10 a = Inr args \<Longrightarrow>
     list args = (getOr (parseArgs_loop a 0 Map.empty) ''list'' ''false'' = ''true'') \<and>
     json args = (getOr (parseArgs_loop a 0 Map.empty) ''json'' ''false'' = ''true'')"
  by (auto simp: parseArgs_def Let_def split: if_splits)

text \<open>
  Claim C10, as stated, fails on the code. \<open>--list\<close> followed by the token \<open>true\<close>, which
  does not start with \<open>--\<close>, evaluates to true: the token is consumed as the value, and the
  value is compared with the text \<open>true\<close>. \<open>--json\<close> followed by the empty token also
  evaluates to true: the empty token is not consumed as a value.
\<close>

theorem parseArgs_flag_value_counterexample:
  "parseArgs (\<lambda>s. None) [''--program'', ''P'', ''--list'', ''true''] =
     Inr \<lparr>Args.rpc = ''https://api.mainnet-beta.solana.com'', program = ''P'', Args.eid = None,
          list = True, eidlist = None, json = False\<rparr> \<and>
   parseArgs (\<lambda>s. None) [''--program'', ''P'', ''--json'', [], ''x''] =
     Inr \<lparr>Args.rpc = ''https://api.mainnet-beta.solana.com'', program = ''P'', Args.eid = None,
          list = False, eidlist = None, json = True\<rparr>"
  by code_simp

text \<open>
  Claim C10, amended. The value collected for an option \<open>--k\<close> is that of its last
  occurrence: the token that follows it when that token is non-empty and does not start
  with \<open>--\<close>, and the text \<open>true\<close> otherwise; an option that does not occur has no value,
  and tokens that do not start with \<open>--\<close> are never options. Consequently \<open>--list\<close> and
  \<open>--json\<close> evaluate to true exactly when their last occurrence is the last token or is
  followed by a token starting with \<open>--\<close>, by the empty token, or by the token \<open>true\<close>,
  and to false when it is followed by any other token.
\<close>

theorem parseArgs_options:
  "parseArgs_loop a 0 Map.empty k = map_option (valueAt a) (lastOption a k) \<and>
   (lastOption a k = Some i \<longrightarrow>
      i < length a \<and> a ! i = ''--'' @ k \<and> (\<forall>j. i < j \<and> j < length a \<longrightarrow> a ! j \<noteq> ''--'' @ k)) \<and>
   (lastOption a k = None \<longrightarrow> ''--'' @ k \<notin> set a) \<and>
   (parseArgs parseInt10 a = Inr args \<longrightarrow>
      (list args \<longleftrightarrow> (\<exists>i. lastOption a ''list'' = Some i \<and> flagTrue a i)) \<and>
      (json args \<longleftrightarrow> (\<exists>i. lastOption a ''json'' = Some i \<and> flagTrue a i)))"
proof (intro conjI impI)
  show "parseArgs_loop a 0 Map.empty k = map_option (valueAt a) (lastOption a k)"
    by (simp add: parseArgs_loop_char lastOption_def split: option.splits)
next
  assume l: "lastOption a k = Some i"
  then have x: "i < length a \<and> isOption a k i \<and> (\<forall>j. i < j \<and> j < length a \<longrightarrow> \<not> isOption a k j)"
    unfolding lastOption_def find_rev_upt_Some .
  show "i < length a" using x by blast
  show "a ! i = ''--'' @ k" using x unfolding isOption_def by blast
  show "\<forall>j. i < j \<and> j < length a \<longrightarrow> a ! j \<noteq> ''--'' @ k" using x unfolding isOption_def by blast
next
  assume "lastOption a k = None"
  then have "\<forall>j<length a. \<not> isOption a k j" unfolding lastOption_def find_rev_upt_None .
  then show "''--'' @ k \<notin> set a" unfolding isOption_def in_set_conv_nth by blast
next
  assume p: "parseArgs parseInt10 a = Inr args"
  show "list args \<longleftrightarrow> (\<exists>i. lastOption a ''list'' = Some i \<and> flagTrue a i)"
    using parseArgs_flags [OF p] flag_value [of a "''list''"] by blast
  show "json args \<longleftrightarrow> (\<exists>i. lastOption a ''json'' = Some i \<and> flagTrue a i)"
    using parseArgs_flags [OF p] flag_value [of a "''json''"] by blast
qed

text \<open>The theorem at an argument vector with \<open>--list\<close> twice, the second followed by \<open>no\<close>.\<close>

theorem parseArgs_options_witness:
  "parseArgs_loop demo_argv 0 Map.empty ''list'' = Some ''no'' \<and>
   lastOption demo_argv ''list'' = Some 3 \<and>
   demo_argv ! 3 = ''--'' @ ''list'' \<and> demo_argv ! 0 = ''--'' @ ''list'' \<and>
   ''--'' @ ''eid'' \<notin> set demo_argv \<and>
   parseArgs (\<lambda>s. None) demo_argv = Inr demo_args \<and>
   \<not> list demo_args \<and> json demo_args \<and>
   (\<exists>i. lastOption demo_argv ''json'' = Some i \<and> flagTrue demo_argv i)"
proof -
  have l3: "lastOption demo_argv ''list'' = Some 3" by code_simp
  have v3: "valueAt demo_argv 3 = ''no''" by code_simp
  have a0: "demo_argv ! 0 = ''--'' @ ''list''" by code_simp
  have le: "lastOption demo_argv ''eid'' = None" by code_simp
  have p: "parseArgs (\<lambda>s. None) demo_argv = Inr demo_args" by code_simp
  have nl: "\<not> list demo_args" and j: "json demo_args" by (simp_all add: demo_args_def)
  note t = parseArgs_options [where a = demo_argv and k = "''list''" and i = 3
      and ?parseInt10.0 = "\<lambda>s. None" and args = demo_args]
  note te = parseArgs_options [where a = demo_argv and k = "''eid''" and i = 3
      and ?parseInt10.0 = "\<lambda>s. None" and args = demo_args]
  have c1: "parseArgs_loop demo_argv 0 Map.empty ''list'' = Some ''no''"
    using t [THEN conjunct1] by (simp only: l3 option.map v3)
  have c2: "demo_argv ! 3 = ''--'' @ ''list''"
    using t [THEN conjunct2, THEN conjunct1, THEN mp, OF l3] by (rule conjunct2 [THEN conjunct1])
  have c3: "''--'' @ ''eid'' \<notin> set demo_argv"
    using te [THEN conjunct2, THEN conjunct2, THEN conjunct1, THEN mp, OF le] .
  have c4: "\<exists>i. lastOption demo_argv ''json'' = Some i \<and> flagTrue demo_argv i"
    using t [THEN conjunct2, THEN conjunct2, THEN conjunct2, THEN mp, OF p, THEN conjunct2] j
    by (rule iffD1)
  show ?thesis by (intro conjI c1 l3 c2 a0 c3 p nl j c4)
qed

section \<open>Completeness of the enumeration on constructed buffers\<close>

lemma separated_sorted:
  "sorted_wrt (\<lambda>p q. p + 64 \<le> q) ps \<Longrightarrow> sorted_wrt (<) (ps::nat list)"
  by (erule sorted_wrt_mono_rel [rotated]) simp

lemma isolated_matches_iff:
  assumes iso: "isolated_windows d ps"
  shows "matchesAt d p \<longleftrightarrow> p \<in> set ps"
proof
  assume p: "p \<in> set ps"
  from iso have "list_all (matchesAt d) ps" by (simp add: isolated_windows_def)
  with p show "matchesAt d p" unfolding list_all_iff by blast
next
  assume m: "matchesAt d p"
  then have "p + 32 \<le> length d" by (simp add: matchesAt_def)
  then have r: "p \<in> set [0..<length d - 31]" by simp
  from iso have "list_all (\<lambda>q. matchesAt d q \<longrightarrow> q \<in> set ps) [0..<length d - 31]"
    by (simp add: isolated_windows_def)
  then have "\<forall>q\<in>set [0..<length d - 31]. matchesAt d q \<longrightarrow> q \<in> set ps"
    unfolding list_all_iff .
  with r m show "p \<in> set ps" by blast
qed

lemma isolated_matched_offsets:
  assumes iso: "isolated_windows d ps"
  shows "filter (matchesAt d) [0..<length d - 31] = ps"
proof -
  from iso have s: "sorted_wrt (\<lambda>p q. p + 64 \<le> q) ps" by (simp add: isolated_windows_def)
  have sp: "sorted_wrt (<) ps" using s by (rule separated_sorted)
  have "set (filter (matchesAt d) [0..<length d - 31]) = set ps"
    unfolding matched_offsets_set using isolated_matches_iff [OF iso] by blast
  moreover have "sorted_wrt (<) (filter (matchesAt d) [0..<length d - 31])"
    by (rule matched_offsets_sorted)
  ultimately show ?thesis using sp
    by (metis strict_sorted_equal)
qed

lemma distinct_map_inj:
  "distinct (map h ps) \<Longrightarrow> (\<And>x y. g x = g y \<Longrightarrow> x = y) \<Longrightarrow> distinct (map (\<lambda>p. g (h p)) ps)"
  by (induction ps) auto

lemma isolated_distinct_evm:
  assumes iso: "isolated_windows d ps"
  shows "distinct (map (\<lambda>p. bytes32ToEvm (window d p)) ps)"
proof -
  from iso have dt: "distinct (map (\<lambda>p. subarray_from (window d p) 12) ps)"
    by (simp add: isolated_windows_def)
  have "distinct (map (\<lambda>p. (\<lambda>t. ''0x'' @ toHex t) (subarray_from (window d p) 12)) ps)"
    using dt by (rule distinct_map_inj) (use toHex_inj in auto)
  then show ?thesis by (simp add: bytes32ToEvm_def)
qed

text \<open>
  Claim C8, as the specification states it, fails on the code. Two valid windows with
  different values, separated by 32 bytes \<open>0xFF\<close> (no window of the filler satisfies the
  predicate), yield three candidates, at offsets 0, 1 and 64, when the first value starts
  with a zero byte: the window at offset 1, which straddles the end of the first window,
  matches as well. Two valid windows separated by 32 zero bytes yield 21 candidates, and
  two valid windows with the same value yield one candidate, because of the
  deduplication.
\<close>

theorem separated_windows_counterexample:
  "looksLikeBytes32EvmAddress (replicate 12 0 @ [0] @ replicate 19 0xAB) \<and>
   looksLikeBytes32EvmAddress (replicate 12 0 @ replicate 20 0xAB) \<and>
   looksLikeBytes32EvmAddress (replicate 12 0 @ replicate 20 0xCD) \<and>
   \<not> looksLikeBytes32EvmAddress (replicate 32 0) \<and>
   \<not> looksLikeBytes32EvmAddress (replicate 32 0xFF) \<and>
   map off (extractAllEvmPeers demo_leading_zero) = [0, 1, 64] \<and>
   length (extractAllEvmPeers demo_zero_filler) = 21 \<and>
   length (extractAllEvmPeers demo_same_value) = 1"
  by code_simp

text \<open>
  Claim C8, amended. For every \<open>k\<close> and every buffer holding \<open>k\<close> valid windows that do not
  overlap and are separated by at least 32 bytes of filler, such that no window of the
  buffer at any other offset satisfies the predicate and the decoded values of the \<open>k\<close>
  windows are pairwise different, full enumeration yields exactly \<open>k\<close> candidates with
  pairwise different values, at the offsets of the windows in ascending order.
\<close>

theorem isolated_windows_enumerated:
  "isolated_windows d ps \<longrightarrow>
     map off (extractAllEvmPeers d) = ps \<and> length (extractAllEvmPeers d) = length ps \<and>
     distinct (map peer.evm (extractAllEvmPeers d)) \<and>
     sorted_wrt (<) (map off (extractAllEvmPeers d))"
proof
  assume iso: "isolated_windows d ps"
  have "firstOcc (\<lambda>p. bytes32ToEvm (window d p)) {} ps = ps"
    using isolated_distinct_evm [OF iso] by (intro firstOcc_id) simp_all
  then have m: "map off (extractAllEvmPeers d) = ps"
    by (simp only: map_off_extractAll isolated_matched_offsets [OF iso])
  then have "length (map off (extractAllEvmPeers d)) = length ps" by simp
  then have l: "length (extractAllEvmPeers d) = length ps" by simp
  show "map off (extractAllEvmPeers d) = ps \<and> length (extractAllEvmPeers d) = length ps \<and>
     distinct (map peer.evm (extractAllEvmPeers d)) \<and>
     sorted_wrt (<) (map off (extractAllEvmPeers d))"
    by (intro conjI m l distinct_evm_extractAll sorted_off_extractAll)
qed

text \<open>
  The theorem at two windows separated by filler \<open>0xFF\<close>, the first value holding a zero
  byte.
\<close>

theorem isolated_windows_enumerated_witness:
  "isolated_windows demo_two_windows [0, 64] \<and>
   map off (extractAllEvmPeers demo_two_windows) = [0, 64] \<and>
   length (extractAllEvmPeers demo_two_windows) = 2 \<and>
   distinct (map peer.evm (extractAllEvmPeers demo_two_windows)) \<and>
   sorted_wrt (<) (map off (extractAllEvmPeers demo_two_windows))"
proof -
  have i: "isolated_windows demo_two_windows [0, 64]" by code_simp
  note t = isolated_windows_enumerated [of demo_two_windows "[0, 64]", THEN mp, OF i]
  have l: "length (extractAllEvmPeers demo_two_windows) = 2"
    using t [THEN conjunct2, THEN conjunct1] by simp
  show ?thesis
    by (intro conjI i t [THEN conjunct1] l t [THEN conjunct2, THEN conjunct2, THEN conjunct1]
        t [THEN conjunct2, THEN conjunct2, THEN conjunct2])
qed

section \<open>The extractors leave their input alone\<close>

lemma unchanged_refl: "unchanged st st"
  by (simp add: unchanged_def)

lemma unchanged_trans: "unchanged st st1 \<Longrightarrow> unchanged st1 st2 \<Longrightarrow> unchanged st st2"
  by (auto simp: unchanged_def)

lemma copy_of_unchanged: "copy_of st v = (st', c) \<Longrightarrow> unchanged st st'"
  by (auto simp: copy_of_def unchanged_def)

lemma copy_of_bytes: "copy_of st v = (st', c) \<Longrightarrow> bytes st' c = bytes st v"
  by (auto simp: copy_of_def bytes_def)

lemma bytes_unchanged: "unchanged st st' \<Longrightarrow> buffer v < fresh st \<Longrightarrow> bytes st' v = bytes st v"
  by (simp add: unchanged_def bytes_def)

lemma valid_unchanged: "unchanged st st' \<Longrightarrow> valid st v \<Longrightarrow> valid st' v"
  by (auto simp: unchanged_def valid_def)

lemma bytes_view_subarray: "bytes st (view_subarray v a b) = subarray (bytes st v) a b"
proof (cases "a \<le> byteLength v")
  case True
  then show ?thesis
    by (simp add: bytes_def view_subarray_def subarray_def drop_take min_def add.commute)
next
  case False
  then show ?thesis
    by (simp add: bytes_def view_subarray_def subarray_def min_def)
qed

lemma buffer_view_subarray: "buffer (view_subarray v a b) = buffer v"
  by (simp add: view_subarray_def)

lemma bytes_view_subarray_from: "bytes st (view_subarray_from v a) = subarray_from (bytes st v) a"
proof -
  have "length (bytes st v) \<le> byteLength v" by (simp add: bytes_def)
  then show ?thesis
    by (simp add: view_subarray_from_def bytes_view_subarray subarray_def subarray_from_def)
qed

lemma length_bytes: "valid st v \<Longrightarrow> length (bytes st v) = byteLength v"
  by (auto simp: valid_def bytes_def)

lemma single_st_loop:
  "valid st d \<Longrightarrow> extractPeerBytes32_st_loop st d i = (st', r) \<Longrightarrow>
     unchanged st st' \<and> map_option (bytes st') r = extractPeerBytes32_loop (bytes st d) i"
proof (induction st d i rule: extractPeerBytes32_st_loop.induct)
  case (1 st d i)
  note v = "1.prems"(1)
  note l = length_bytes [OF v]
  show ?case
  proof (cases "i + 32 \<le> byteLength d")
    case False
    then have "extractPeerBytes32_st_loop st d i = (st, None)"
      by (subst extractPeerBytes32_st_loop.simps) simp
    moreover have "extractPeerBytes32_loop (bytes st d) i = None"
      using False l by (subst extractPeerBytes32_loop.simps) simp
    ultimately show ?thesis using "1.prems"(2) by (simp add: unchanged_refl)
  next
    case True
    let ?s = "view_subarray d i (i + 32)"
    let ?w = "subarray (bytes st d) i (i + 32)"
    let ?c = "list_all (\<lambda>b. b = 0) (subarray ?w 0 12) \<and>
              \<not> list_all (\<lambda>b. b = 0) (subarray_from ?w 12)"
    have bs: "bytes st ?s = ?w" by (rule bytes_view_subarray)
    have c: "(list_all (\<lambda>b. b = 0) (bytes st (view_subarray ?s 0 12)) \<and>
        \<not> list_all (\<lambda>b. b = 0) (bytes st (view_subarray_from ?s 12))) = ?c"
      by (simp only: bytes_view_subarray bytes_view_subarray_from)
    show ?thesis
    proof (cases ?c)
      case t: True
      then have ceq: "?c = True" by simp
      have p: "extractPeerBytes32_loop (bytes st d) i = Some ?w"
        by (subst extractPeerBytes32_loop.simps) (simp add: True l ceq Let_def)
      obtain st1 r1 where cp: "copy_of st ?s = (st1, r1)" by (cases "copy_of st ?s")
      have "extractPeerBytes32_st_loop st d i = (st1, Some r1)"
        by (subst extractPeerBytes32_st_loop.simps) (simp add: True c ceq Let_def cp)
      with "1.prems"(2) have e: "st' = st1" "r = Some r1" by simp_all
      show ?thesis
        using copy_of_unchanged [OF cp] copy_of_bytes [OF cp] by (simp add: e p bs)
    next
      case f: False
      then have ceq: "?c = False" by simp
      have p: "extractPeerBytes32_loop (bytes st d) i = extractPeerBytes32_loop (bytes st d) (i + 1)"
        by (subst extractPeerBytes32_loop.simps) (simp add: True l ceq Let_def)
      have q: "extractPeerBytes32_st_loop st d i = extractPeerBytes32_st_loop st d (i + 1)"
        by (subst extractPeerBytes32_st_loop.simps) (simp add: True c ceq Let_def)
      have nc: "\<not> (list_all (\<lambda>b. b = 0) (bytes st (view_subarray ?s 0 12)) \<and>
        \<not> list_all (\<lambda>b. b = 0) (bytes st (view_subarray_from ?s 12)))"
        using f c by simp
      from "1.IH" [OF True refl refl refl nc v] "1.prems"(2) q
      show ?thesis by (simp add: p)
    qed
  qed
qed

lemma hex_st_eq:
  "hex_st st u = (st1, b) \<Longrightarrow> unchanged st st1 \<and> b = hex (bytes st u)"
proof -
  assume h: "hex_st st u = (st1, b)"
  obtain st' c where cp: "copy_of st u = (st', c)" by (cases "copy_of st u")
  with h have "st1 = st'" "b = ''0x'' @ toHex (bytes st' c)" by (auto simp: hex_st_def)
  then show ?thesis using copy_of_unchanged [OF cp] copy_of_bytes [OF cp] by (simp add: hex_def)
qed

lemma bytes32ToEvm_st_eq:
  "bytes32ToEvm_st st u = (st1, e) \<Longrightarrow> unchanged st st1 \<and> e = bytes32ToEvm (bytes st u)"
proof -
  assume h: "bytes32ToEvm_st st u = (st1, e)"
  obtain st' c where cp: "copy_of st (view_subarray_from u 12) = (st', c)"
    by (cases "copy_of st (view_subarray_from u 12)")
  with h have "st1 = st'" "e = ''0x'' @ toHex (bytes st' c)" by (auto simp: bytes32ToEvm_st_def)
  then show ?thesis using copy_of_unchanged [OF cp] copy_of_bytes [OF cp]
    by (simp add: bytes32ToEvm_def bytes_view_subarray_from)
qed

lemma all_st_loop:
  "valid st d \<Longrightarrow> extractAllEvmPeers_st_loop st d i out = (st', out') \<Longrightarrow>
     unchanged st st' \<and> out' = extractAllEvmPeers_loop (bytes st d) i out"
proof (induction st d i out rule: extractAllEvmPeers_st_loop.induct)
  case (1 st d i out)
  note v = "1.prems"(1)
  note l = length_bytes [OF v]
  show ?case
  proof (cases "i + 32 \<le> byteLength d")
    case False
    then have "extractAllEvmPeers_st_loop st d i out = (st, out)"
      by (subst extractAllEvmPeers_st_loop.simps) simp
    moreover have "extractAllEvmPeers_loop (bytes st d) i out = out"
      using False l by (subst extractAllEvmPeers_loop.simps) simp
    ultimately show ?thesis using "1.prems"(2) by (simp add: unchanged_refl)
  next
    case True
    let ?s = "view_subarray d i (i + 32)"
    let ?w = "subarray (bytes st d) i (i + 32)"
    have bs: "bytes st ?s = ?w" by (rule bytes_view_subarray)
    have sb: "buffer ?s < fresh st" using v by (simp add: buffer_view_subarray valid_def)
    show ?thesis
    proof (cases "looksLikeBytes32EvmAddress ?w")
      case f: False
      have p: "extractAllEvmPeers_loop (bytes st d) i out =
          extractAllEvmPeers_loop (bytes st d) (i + 1) out"
        by (subst extractAllEvmPeers_loop.simps) (simp add: True l f Let_def)
      have q: "extractAllEvmPeers_st_loop st d i out = extractAllEvmPeers_st_loop st d (i + 1) out"
        by (subst extractAllEvmPeers_st_loop.simps) (simp add: True f bs Let_def)
      have nl: "\<not> looksLikeBytes32EvmAddress (bytes st ?s)" using f bs by simp
      from "1.IH"(3) [OF True refl nl v] "1.prems"(2) q
      show ?thesis by (simp add: p)
    next
      case t: True
      have yl: "looksLikeBytes32EvmAddress (bytes st ?s)" using t bs by simp
      obtain st1 b where hx: "hex_st st ?s = (st1, b)" by (cases "hex_st st ?s")
      obtain st2 e where ev: "bytes32ToEvm_st st1 ?s = (st2, e)"
        by (cases "bytes32ToEvm_st st1 ?s")
      from hex_st_eq [OF hx] have u1: "unchanged st st1" and b: "b = hex ?w" by (simp_all add: bs)
      from bytes32ToEvm_st_eq [OF ev] have u12: "unchanged st1 st2"
        and e0: "e = bytes32ToEvm (bytes st1 ?s)" by simp_all
      have e: "e = bytes32ToEvm ?w" using e0 bytes_unchanged [OF u1 sb] bs by simp
      have u2: "unchanged st st2" using u1 u12 by (rule unchanged_trans)
      have v2: "valid st2 d" using u2 v by (rule valid_unchanged)
      have bd: "bytes st2 d = bytes st d" using u2 v by (intro bytes_unchanged) (simp_all add: valid_def)
      show ?thesis
      proof (cases "find (\<lambda>x. peer.evm x = e) out = None")
        case n: True
        let ?out = "out @ [\<lparr>off = i, b32 = b, peer.evm = e\<rparr>]"
        have p: "extractAllEvmPeers_loop (bytes st d) i out =
            extractAllEvmPeers_loop (bytes st d) (i + 1) ?out"
          by (subst extractAllEvmPeers_loop.simps) (simp add: True l t n [unfolded e] Let_def b e)
        have q: "extractAllEvmPeers_st_loop st d i out = extractAllEvmPeers_st_loop st2 d (i + 1) ?out"
          by (subst extractAllEvmPeers_st_loop.simps) (simp add: True yl n Let_def hx ev)
        from "1.IH"(1) [OF True refl yl hx [symmetric] ev [symmetric] n v2] "1.prems"(2) q
        have "unchanged st2 st' \<and> out' = extractAllEvmPeers_loop (bytes st2 d) (i + 1) ?out"
          by simp
        then show ?thesis using u2 unchanged_trans by (auto simp: p bd)
      next
        case n: False
        have p: "extractAllEvmPeers_loop (bytes st d) i out =
            extractAllEvmPeers_loop (bytes st d) (i + 1) out"
          by (subst extractAllEvmPeers_loop.simps) (simp add: True l t n [unfolded e] Let_def b e)
        have q: "extractAllEvmPeers_st_loop st d i out = extractAllEvmPeers_st_loop st2 d (i + 1) out"
          by (subst extractAllEvmPeers_st_loop.simps) (simp add: True yl n Let_def hx ev)
        from "1.IH"(2) [OF True refl yl hx [symmetric] ev [symmetric] n v2] "1.prems"(2) q
        have "unchanged st2 st' \<and> out' = extractAllEvmPeers_loop (bytes st2 d) (i + 1) out"
          by simp
        then show ?thesis using u2 unchanged_trans by (auto simp: p bd)
      qed
    qed
  qed
qed

lemma short_buffer_single: "length b < 32 \<Longrightarrow> extractPeerBytes32 b = None"
  by (simp add: single_None_iff matchesAt_def)

lemma short_buffer_all: "length b < 32 \<Longrightarrow> extractAllEvmPeers b = []"
proof -
  assume "length b < 32"
  then have "[0..<length b - 31] = []" by simp
  then show ?thesis by (simp add: extractAll_firstOcc)
qed

lemma single_st:
  assumes v: "valid st d"
  shows "unchanged st (fst (extractPeerBytes32_st st d))"
    and "map_option (bytes (fst (extractPeerBytes32_st st d))) (snd (extractPeerBytes32_st st d)) =
           extractPeerBytes32 (bytes st d)"
proof -
  have "extractPeerBytes32_st_loop st d 0 =
      (fst (extractPeerBytes32_st st d), snd (extractPeerBytes32_st st d))"
    by (simp add: extractPeerBytes32_st_def)
  from single_st_loop [OF v this]
  show "unchanged st (fst (extractPeerBytes32_st st d))"
    and "map_option (bytes (fst (extractPeerBytes32_st st d))) (snd (extractPeerBytes32_st st d)) =
           extractPeerBytes32 (bytes st d)"
    by (simp_all add: extractPeerBytes32_def)
qed

lemma all_st:
  assumes v: "valid st d"
  shows "unchanged st (fst (extractAllEvmPeers_st st d))"
    and "snd (extractAllEvmPeers_st st d) = extractAllEvmPeers (bytes st d)"
proof -
  have "extractAllEvmPeers_st_loop st d 0 [] =
      (fst (extractAllEvmPeers_st st d), snd (extractAllEvmPeers_st st d))"
    by (simp add: extractAllEvmPeers_st_def)
  from all_st_loop [OF v this]
  show "unchanged st (fst (extractAllEvmPeers_st st d))"
    and "snd (extractAllEvmPeers_st st d) = extractAllEvmPeers (bytes st d)"
    by (simp_all add: extractAllEvmPeers_def)
qed

text \<open>
  Claim C7. Running either extractor on a view of a store changes no array buffer that
  was allocated before the call, so the bytes of the input buffer are the same after the
  call; what it returns is what the function on byte lists returns for the bytes of the
  input; it returns nothing, or the empty list, when the buffer is shorter than 32 bytes;
  and a second run, on the store left by the first, returns the same bytes and the same
  list.
\<close>

theorem extractor_frame_and_idempotence:
  "(valid st d \<longrightarrow>
      (\<forall>a<fresh st. cells (fst (extractPeerBytes32_st st d)) a = cells st a) \<and>
      (\<forall>a<fresh st. cells (fst (extractAllEvmPeers_st st d)) a = cells st a) \<and>
      bytes (fst (extractPeerBytes32_st st d)) d = bytes st d \<and>
      bytes (fst (extractAllEvmPeers_st st d)) d = bytes st d \<and>
      map_option (bytes (fst (extractPeerBytes32_st st d))) (snd (extractPeerBytes32_st st d)) =
        extractPeerBytes32 (bytes st d) \<and>
      snd (extractAllEvmPeers_st st d) = extractAllEvmPeers (bytes st d) \<and>
      (byteLength d < 32 \<longrightarrow>
         snd (extractPeerBytes32_st st d) = None \<and> snd (extractAllEvmPeers_st st d) = []) \<and>
      map_option (bytes (fst (extractPeerBytes32_st (fst (extractPeerBytes32_st st d)) d)))
          (snd (extractPeerBytes32_st (fst (extractPeerBytes32_st st d)) d)) =
        map_option (bytes (fst (extractPeerBytes32_st st d))) (snd (extractPeerBytes32_st st d)) \<and>
      snd (extractAllEvmPeers_st (fst (extractAllEvmPeers_st st d)) d) =
        snd (extractAllEvmPeers_st st d)) \<and>
   (length b < 32 \<longrightarrow> extractPeerBytes32 b = None \<and> extractAllEvmPeers b = [])"
proof (intro conjI impI)
  assume v: "valid st d"
  let ?s1 = "fst (extractPeerBytes32_st st d)"
  let ?s2 = "fst (extractAllEvmPeers_st st d)"
  note u1 = single_st(1) [OF v] and r1 = single_st(2) [OF v]
  note u2 = all_st(1) [OF v] and r2 = all_st(2) [OF v]
  have bd: "buffer d < fresh st" using v by (simp add: valid_def)
  show "\<forall>a<fresh st. cells ?s1 a = cells st a" using u1 by (simp add: unchanged_def)
  show "\<forall>a<fresh st. cells ?s2 a = cells st a" using u2 by (simp add: unchanged_def)
  show b1: "bytes ?s1 d = bytes st d" using u1 bd by (rule bytes_unchanged)
  show b2: "bytes ?s2 d = bytes st d" using u2 bd by (rule bytes_unchanged)
  show "map_option (bytes ?s1) (snd (extractPeerBytes32_st st d)) = extractPeerBytes32 (bytes st d)"
    by (rule r1)
  show "snd (extractAllEvmPeers_st st d) = extractAllEvmPeers (bytes st d)" by (rule r2)
  have v1: "valid ?s1 d" using u1 v by (rule valid_unchanged)
  have v2: "valid ?s2 d" using u2 v by (rule valid_unchanged)
  show "map_option (bytes (fst (extractPeerBytes32_st ?s1 d))) (snd (extractPeerBytes32_st ?s1 d)) =
        map_option (bytes ?s1) (snd (extractPeerBytes32_st st d))"
    by (simp only: single_st(2) [OF v1] b1 r1)
  show "snd (extractAllEvmPeers_st ?s2 d) = snd (extractAllEvmPeers_st st d)"
    by (simp only: all_st(2) [OF v2] b2 r2)
  {
    assume s: "byteLength d < 32"
    then have l: "length (bytes st d) < 32" using length_bytes [OF v] by simp
    from r1 short_buffer_single [OF l]
    show "snd (extractPeerBytes32_st st d) = None" by simp
    from r2 short_buffer_all [OF l]
    show "snd (extractAllEvmPeers_st st d) = []" by simp
  }
next
  assume l: "length b < 32"
  show "extractPeerBytes32 b = None" using l by (rule short_buffer_single)
  show "extractAllEvmPeers b = []" using l by (rule short_buffer_all)
qed

text \<open>
  The theorem at the store holding the peer account, for the view of the whole buffer and
  for the view of its last 8 bytes, and at a list of 31 bytes.
\<close>

theorem extractor_frame_and_idempotence_witness:
  "valid demo_memory demo_view \<and>
   cells (fst (extractPeerBytes32_st demo_memory demo_view)) 0 = cells demo_memory 0 \<and>
   cells (fst (extractAllEvmPeers_st demo_memory demo_view)) 0 = cells demo_memory 0 \<and>
   map_option (bytes (fst (extractPeerBytes32_st demo_memory demo_view)))
     (snd (extractPeerBytes32_st demo_memory demo_view)) =
     extractPeerBytes32 (bytes demo_memory demo_view) \<and>
   snd (extractAllEvmPeers_st demo_memory demo_view) =
     extractAllEvmPeers (bytes demo_memory demo_view) \<and>
   valid demo_memory demo_short_view \<and>
   snd (extractPeerBytes32_st demo_memory demo_short_view) = None \<and>
   snd (extractAllEvmPeers_st demo_memory demo_short_view) = [] \<and>
   extractPeerBytes32 (replicate 31 7) = None \<and> extractAllEvmPeers (replicate 31 7) = []"
proof -
  have v: "valid demo_memory demo_view" by code_simp
  have vs: "valid demo_memory demo_short_view" by code_simp
  have f: "0 < fresh demo_memory" by (simp add: demo_memory_def)
  have s: "byteLength demo_short_view < 32" by (simp add: demo_short_view_def)
  have l: "length (replicate 31 (7::byte)) < 32" by simp
  note t = extractor_frame_and_idempotence [of demo_memory demo_view "replicate 31 7"]
  note ts = extractor_frame_and_idempotence [of demo_memory demo_short_view "replicate 31 7"]
  note a = t [THEN conjunct1, THEN mp, OF v]
  note b = ts [THEN conjunct1, THEN mp, OF vs]
  note c = t [THEN conjunct2, THEN mp, OF l]
  note b7 = b [THEN conjunct2, THEN conjunct2, THEN conjunct2, THEN conjunct2, THEN conjunct2,
      THEN conjunct2, THEN conjunct1, THEN mp, OF s]
  show ?thesis
    by (intro conjI v vs
        a [THEN conjunct1, rule_format, OF f]
        a [THEN conjunct2, THEN conjunct1, rule_format, OF f]
        a [THEN conjunct2, THEN conjunct2, THEN conjunct2, THEN conjunct2, THEN conjunct1]
        a [THEN conjunct2, THEN conjunct2, THEN conjunct2, THEN conjunct2, THEN conjunct2,
           THEN conjunct1]
        b7 [THEN conjunct1] b7 [THEN conjunct2] c [THEN conjunct1] c [THEN conjunct2])
qed

end
